theory Spec2Isabelle
  imports Complex_Main "HOL-Library.AList" "HOL-Library.Multiset"
begin

section \<open>Data model\<close>

text \<open>
  The package \<open>classifierPerformance\<close> turns a table of (score, label) rows into a sweep of
  confusion-matrix counts and derives curves from it.

  Modelling conventions.
  \<^item> A run-time panic (index out of range, \<open>panic("internal error")\<close>) is the value
    \<open>Panic\<close>; the error return built by \<open>fmt.Errorf("invalid label: %d", ...)\<close> is
    \<open>InvalidLabel\<close>.
  \<^item> Go's \<open>int\<close> is modelled as \<open>int\<close>. The counts of the sweep are bounded by the length
    of a slice, so 64-bit wrap-around cannot occur in \<open>EvalPerformance\<close>. The curve
    functions accept any \<open>Performance\<close>, so the sums they take are written with the
    wrap-around (\<open>int64_add\<close>).
  \<^item> A \<open>float64\<close> is its real value or one of the three special values NaN, \<open>-\<infinity>\<close>
    and \<open>+\<infinity>\<close>.
\<close>

datatype error = Panic | InvalidLabel int

section \<open>Floating-point values\<close>

text \<open>
  The operations follow IEEE 754 on the special values (\<open>0/0\<close>, \<open>\<infinity> - \<infinity>\<close>, \<open>0 * \<infinity>\<close> and
  \<open>\<infinity>/\<infinity>\<close> are NaN, a non-zero finite value divided by zero is an infinity, every
  comparison with NaN is false). Rounding, overflow to infinity and the sign of zero are
  not modelled: finite results are exact and a zero divisor counts as \<open>+0\<close>, which is what
  every divisor of this package is when it is zero (a converted integer, or \<open>1.0 - c\<close>
  with \<open>c = 1\<close>).
\<close>

datatype float64 = NaN | NegInf | Finite real | PosInf

definition float64_of_int :: "int \<Rightarrow> float64" where
  "float64_of_int n = Finite (of_int n)"

fun fneg :: "float64 \<Rightarrow> float64" where
  "fneg NaN = NaN"
| "fneg NegInf = PosInf"
| "fneg (Finite a) = Finite (- a)"
| "fneg PosInf = NegInf"

fun fadd :: "float64 \<Rightarrow> float64 \<Rightarrow> float64" where
  "fadd (Finite a) (Finite b) = Finite (a + b)"
| "fadd NaN b = NaN"
| "fadd a NaN = NaN"
| "fadd PosInf NegInf = NaN"
| "fadd NegInf PosInf = NaN"
| "fadd PosInf b = PosInf"
| "fadd a PosInf = PosInf"
| "fadd NegInf b = NegInf"
| "fadd a NegInf = NegInf"

definition fsub :: "float64 \<Rightarrow> float64 \<Rightarrow> float64" where
  "fsub a b = fadd a (fneg b)"

fun fmul :: "float64 \<Rightarrow> float64 \<Rightarrow> float64" where
  "fmul (Finite a) (Finite b) = Finite (a * b)"
| "fmul NaN b = NaN"
| "fmul a NaN = NaN"
| "fmul PosInf (Finite b) = (if b = 0 then NaN else if 0 < b then PosInf else NegInf)"
| "fmul NegInf (Finite b) = (if b = 0 then NaN else if 0 < b then NegInf else PosInf)"
| "fmul (Finite a) PosInf = (if a = 0 then NaN else if 0 < a then PosInf else NegInf)"
| "fmul (Finite a) NegInf = (if a = 0 then NaN else if 0 < a then NegInf else PosInf)"
| "fmul PosInf PosInf = PosInf"
| "fmul NegInf NegInf = PosInf"
| "fmul PosInf NegInf = NegInf"
| "fmul NegInf PosInf = NegInf"

fun fdiv :: "float64 \<Rightarrow> float64 \<Rightarrow> float64" where
  "fdiv (Finite a) (Finite b) =
     (if b = 0 then (if a = 0 then NaN else if 0 < a then PosInf else NegInf)
      else Finite (a / b))"
| "fdiv NaN b = NaN"
| "fdiv a NaN = NaN"
| "fdiv (Finite a) PosInf = Finite 0"
| "fdiv (Finite a) NegInf = Finite 0"
| "fdiv PosInf (Finite b) = (if 0 \<le> b then PosInf else NegInf)"
| "fdiv NegInf (Finite b) = (if 0 \<le> b then NegInf else PosInf)"
| "fdiv PosInf b = NaN"
| "fdiv NegInf b = NaN"

fun fabs :: "float64 \<Rightarrow> float64" where
  "fabs NaN = NaN"
| "fabs NegInf = PosInf"
| "fabs (Finite a) = Finite \<bar>a\<bar>"
| "fabs PosInf = PosInf"

text \<open>\<open>fgt a b\<close> is Go's \<open>a > b\<close>.\<close>

fun fgt :: "float64 \<Rightarrow> float64 \<Rightarrow> bool" where
  "fgt (Finite a) (Finite b) = (b < a)"
| "fgt NaN b = False"
| "fgt a NaN = False"
| "fgt NegInf b = False"
| "fgt a PosInf = False"
| "fgt PosInf b = True"
| "fgt a NegInf = True"

text \<open>\<open>flt a b\<close> is Go's \<open>a < b\<close>.\<close>

definition flt :: "float64 \<Rightarrow> float64 \<Rightarrow> bool" where
  "flt a b = fgt b a"

text \<open>
  The order \<open>\<le>\<close> on \<open>float64\<close> is the total order that \<open>sort.Float64s\<close> sorts by:
  NaN comes before every other value, and the other values are in increasing order. It
  is not Go's comparison operator (that is \<open>flt\<close>), from which it differs exactly on NaN.
\<close>

instantiation float64 :: linorder
begin

fun less_eq_float64 :: "float64 \<Rightarrow> float64 \<Rightarrow> bool" where
  "less_eq_float64 (Finite a) (Finite b) = (a \<le> b)"
| "less_eq_float64 NaN b = True"
| "less_eq_float64 a NaN = False"
| "less_eq_float64 NegInf b = True"
| "less_eq_float64 a NegInf = False"
| "less_eq_float64 a PosInf = True"
| "less_eq_float64 PosInf b = False"

definition less_float64 :: "float64 \<Rightarrow> float64 \<Rightarrow> bool" where
  "less_float64 a b = (a \<le> b \<and> \<not> b \<le> a)"

instance
proof
  fix x y z :: float64
  show "(x < y) = (x \<le> y \<and> \<not> y \<le> x)"
    by (simp add: less_float64_def)
  show "x \<le> x"
    by (cases x) auto
  show "x \<le> y \<Longrightarrow> y \<le> z \<Longrightarrow> x \<le> z"
    by (cases x; cases y; cases z) auto
  show "x \<le> y \<Longrightarrow> y \<le> x \<Longrightarrow> x = y"
    by (cases x; cases y) auto
  show "x \<le> y \<or> y \<le> x"
    by (cases x; cases y) auto
qed

end

section \<open>Machine integers\<close>

text \<open>Go's \<open>a + b\<close> on \<open>int\<close> (64 bits, two's complement): the sum wraps around.\<close>

definition int64_add :: "int \<Rightarrow> int \<Rightarrow> int" where
  "int64_add a b = (a + b + 2 ^ 63) mod 2 ^ 64 - 2 ^ 63"

section \<open>Predictions and their sort\<close>

record 'a Predictions =
  Values :: "'a list"
  Labels :: "int list"

record 'a Performance =
  Tr :: "'a list"
  Tp :: "int list"
  Fp :: "int list"
  Tn :: "int list"
  Fn :: "int list"
  P :: int
  N :: int

text \<open>\<open>func (obj Performance) Len() int\<close>\<close>

definition Len :: "'a Performance \<Rightarrow> nat" where
  "Len obj = length (Tr obj)"

text \<open>
  \<open>func (obj Predictions) Less(i, j int) bool\<close>, read where the sort calls it, with both
  indices below \<open>len(obj.Values)\<close>.
\<close>

definition Less :: "float64 Predictions \<Rightarrow> nat \<Rightarrow> nat \<Rightarrow> bool" where
  "Less obj i j = flt (Values obj ! i) (Values obj ! j)"

text \<open>
  \<open>func (obj Predictions) Swap(i, j int)\<close> works on the backing arrays of the caller. It
  exchanges the two scores and then the two labels; when \<open>obj.Labels\<close> is too short the
  second statement panics after the scores have been exchanged. The result is the pair of
  slices it leaves, and the panic if there was one.
\<close>

definition Swap :: "'a Predictions \<Rightarrow> nat \<Rightarrow> nat \<Rightarrow> 'a Predictions \<times> error option" where
  "Swap obj i j =
     (if length (Values obj) \<le> i \<or> length (Values obj) \<le> j then (obj, Some Panic)
      else
        let vs = (Values obj)[i := Values obj ! j, j := Values obj ! i]
        in if length (Labels obj) \<le> i \<or> length (Labels obj) \<le> j
           then (\<lparr>Values = vs, Labels = Labels obj\<rparr>, Some Panic)
           else (\<lparr>Values = vs,
                  Labels = (Labels obj)[i := Labels obj ! j, j := Labels obj ! i]\<rparr>, None))"

text \<open>
  \<open>sort.Sort(Predictions{values, labels})\<close> is modelled by the insertion sort of Go's
  \<open>sort\<close> package,
  \<^verbatim>\<open>for i := 1; i < n; i++ { for j := i; j > 0 && data.Less(j, j-1); j-- { data.Swap(j, j-1) } }\<close>,
  which is what \<open>sort.Sort\<close> runs on short slices (at most 6 rows in every release of
  Go). On longer slices \<open>sort.Sort\<close> makes other exchanges. Whatever it does there, on
  aligned slices it leaves the same rows, and when no score is NaN it leaves them
  in ascending order of score, possibly with another order among equal scores; the
  theorems about the sort below state only this, and the sweep computed afterwards is
  the same for every such arrangement (lemmas \<open>sweep_sorted_unique\<close> and
  \<open>EvalPerformance_any_sort\<close>).
\<close>

fun insertionSort_inner :: "float64 Predictions \<Rightarrow> nat \<Rightarrow> float64 Predictions \<times> error option" where
  "insertionSort_inner obj 0 = (obj, None)"
| "insertionSort_inner obj (Suc j) =
     (if Less obj (Suc j) j then
        (case Swap obj (Suc j) j of
           (obj', Some e) \<Rightarrow> (obj', Some e)
         | (obj', None) \<Rightarrow> insertionSort_inner obj' j)
      else (obj, None))"

fun insertionSort_outer :: "nat list \<Rightarrow> float64 Predictions \<Rightarrow> float64 Predictions \<times> error option" where
  "insertionSort_outer [] obj = (obj, None)"
| "insertionSort_outer (i # is) obj =
     (case insertionSort_inner obj i of
        (obj', Some e) \<Rightarrow> (obj', Some e)
      | (obj', None) \<Rightarrow> insertionSort_outer is obj')"

definition sort_Predictions :: "float64 Predictions \<Rightarrow> float64 Predictions \<times> error option" where
  "sort_Predictions obj = insertionSort_outer [1..<length (Values obj)] obj"

section \<open>The sweep: \<open>EvalPerformance\<close>\<close>

text \<open>
  A Go \<open>map[float64]int\<close> is an association list. Keys are compared with Go's \<open>==\<close>, under
  which NaN differs from itself: assigning at the key NaN always adds an entry, and
  reading at NaN, or at any key that is absent, gives the zero value.
\<close>

definition map_assign :: "(float64 \<times> int) list \<Rightarrow> float64 \<Rightarrow> int \<Rightarrow> (float64 \<times> int) list" where
  "map_assign m k c = (if k = NaN then m @ [(k, c)] else AList.update k c m)"

definition lookup :: "(float64 \<times> int) list \<Rightarrow> float64 \<Rightarrow> int" where
  "lookup m k = (if k = NaN then 0 else case map_of m k of None \<Rightarrow> 0 | Some c \<Rightarrow> c)"

text \<open>
  The counting loop \<open>for i, _ := range values\<close> of \<open>EvalPerformance\<close>: the running
  counts, the two maps, the early return on a label that is neither 0 nor 1, and the
  index panic of \<open>labels[i]\<close> when \<open>labels\<close> is the shorter slice.
\<close>

fun count_labels ::
  "float64 list \<Rightarrow> int list \<Rightarrow> int \<Rightarrow> int \<Rightarrow> (float64 \<times> int) list \<Rightarrow> (float64 \<times> int) list
     \<Rightarrow> error + (int \<times> int \<times> (float64 \<times> int) list \<times> (float64 \<times> int) list)" where
  "count_labels [] ls n_pos n_neg n_pos_map n_neg_map = Inr (n_pos, n_neg, n_pos_map, n_neg_map)"
| "count_labels (v # vs) [] n_pos n_neg n_pos_map n_neg_map = Inl Panic"
| "count_labels (v # vs) (l # ls) n_pos n_neg n_pos_map n_neg_map =
     (if l = 1 then
        count_labels vs ls (n_pos + 1) n_neg
          (map_assign n_pos_map v (n_pos + 1)) (map_assign n_neg_map v n_neg)
      else if l = 0 then
        count_labels vs ls n_pos (n_neg + 1)
          (map_assign n_pos_map v n_pos) (map_assign n_neg_map v (n_neg + 1))
      else Inl (InvalidLabel l))"

text \<open>
  The second half of \<open>EvalPerformance\<close>: the keys of \<open>n_pos_map\<close> (ranged over in an
  unspecified order) are sorted by \<open>sort.Float64s\<close> into \<open>tr\<close>, and the four count
  slices are filled per threshold.
\<close>

definition build_sweep ::
  "int \<Rightarrow> int \<Rightarrow> (float64 \<times> int) list \<Rightarrow> (float64 \<times> int) list \<Rightarrow> float64 list
     \<Rightarrow> float64 Performance" where
  "build_sweep n_pos n_neg n_pos_map n_neg_map tr =
     \<lparr>Tr = tr,
      Tp = map (\<lambda>t. n_pos - lookup n_pos_map t) tr,
      Fp = map (\<lambda>t. n_neg - lookup n_neg_map t) tr,
      Tn = map (\<lambda>t. lookup n_neg_map t) tr,
      Fn = map (\<lambda>t. lookup n_pos_map t) tr,
      P = n_pos, N = n_neg\<rparr>"

text \<open>Everything \<open>EvalPerformance\<close> does after the sort, on the slices the sort has left.\<close>

definition sweep_sorted :: "float64 Predictions \<Rightarrow> error + float64 Performance" where
  "sweep_sorted obj =
     (case count_labels (Values obj) (Labels obj) 0 0 [] [] of
        Inl e \<Rightarrow> Inl e
      | Inr (n_pos, n_neg, n_pos_map, n_neg_map) \<Rightarrow>
          Inr (build_sweep n_pos n_neg n_pos_map n_neg_map (sort (map fst n_pos_map))))"

text \<open>
  \<open>EvalPerformance(values, labels)\<close> returns the caller's two slices as the call leaves
  them, and the result, the error or the panic.
\<close>

definition EvalPerformance ::
  "float64 list \<Rightarrow> int list \<Rightarrow> float64 Predictions \<times> (error + float64 Performance)" where
  "EvalPerformance values labels =
     (case sort_Predictions \<lparr>Values = values, Labels = labels\<rparr> of
        (obj, Some e) \<Rightarrow> (obj, Inl e)
      | (obj, None) \<Rightarrow> (obj, sweep_sorted obj))"

section \<open>The older variant: \<open>ComputePerformance\<close>\<close>

text \<open>
  \<open>ComputePerformance(predictions Predictions)\<close> (and \<open>compute_performance\<close> of the
  stand-alone tool, the same code) takes predictions that its caller has sorted. Its
  counting loop has two independent \<open>if\<close>s and no error return, so a label that is
  neither 0 nor 1 changes neither count. Its thresholds are built by ranging over
  \<open>predictions.Values\<close>, one entry per row, under the comment
  \<open>// create a list of unique thresholds\<close>.
\<close>

fun count_labels_unchecked ::
  "float64 list \<Rightarrow> int list \<Rightarrow> int \<Rightarrow> int \<Rightarrow> (float64 \<times> int) list \<Rightarrow> (float64 \<times> int) list
     \<Rightarrow> error + (int \<times> int \<times> (float64 \<times> int) list \<times> (float64 \<times> int) list)" where
  "count_labels_unchecked [] ls n_pos n_neg n_pos_map n_neg_map =
     Inr (n_pos, n_neg, n_pos_map, n_neg_map)"
| "count_labels_unchecked (v # vs) [] n_pos n_neg n_pos_map n_neg_map = Inl Panic"
| "count_labels_unchecked (v # vs) (l # ls) n_pos n_neg n_pos_map n_neg_map =
     (let n_pos' = (if l = 1 then n_pos + 1 else n_pos);
          n_neg' = (if l = 0 then n_neg + 1 else n_neg)
      in count_labels_unchecked vs ls n_pos' n_neg'
           (map_assign n_pos_map v n_pos') (map_assign n_neg_map v n_neg'))"

definition ComputePerformance ::
  "float64 Predictions
     \<Rightarrow> error + (float64 list \<times> int list \<times> int list \<times> int list \<times> int list \<times> int \<times> int)" where
  "ComputePerformance predictions =
     (case count_labels_unchecked (Values predictions) (Labels predictions) 0 0 [] [] of
        Inl e \<Rightarrow> Inl e
      | Inr (n_pos, n_neg, n_pos_map, n_neg_map) \<Rightarrow>
          let tr = sort (Values predictions)
          in Inr (tr,
                  map (\<lambda>t. n_pos - lookup n_pos_map t) tr,
                  map (\<lambda>t. n_neg - lookup n_neg_map t) tr,
                  map (\<lambda>t. lookup n_neg_map t) tr,
                  map (\<lambda>t. lookup n_pos_map t) tr,
                  n_pos, n_neg))"

section \<open>Loops with a panic\<close>

text \<open>
  A counted \<open>for\<close> loop whose body may panic: the indices are run through in order and
  the first failure ends the loop.
\<close>

fun for_loop :: "nat list \<Rightarrow> (nat \<Rightarrow> 's \<Rightarrow> error + 's) \<Rightarrow> 's \<Rightarrow> error + 's" where
  "for_loop [] body s = Inr s"
| "for_loop (i # is) body s =
     (case body i s of Inl e \<Rightarrow> Inl e | Inr s' \<Rightarrow> for_loop is body s')"

section \<open>Curves: \<open>PrecisionRecall\<close>\<close>

text \<open>
  One iteration of the first loop of \<open>PrecisionRecall\<close>, on the pair of slices
  \<open>(recall, precision)\<close>. Reading \<open>perf.Tp[i]\<close>, \<open>perf.Fn[i]\<close> or \<open>perf.Fp[i]\<close> past the
  end of the slice panics; the two sums are sums of Go's \<open>int\<close>.
\<close>

definition PrecisionRecall_step ::
  "'a Performance \<Rightarrow> nat \<Rightarrow> float64 list \<times> float64 list \<Rightarrow> error + (float64 list \<times> float64 list)" where
  "PrecisionRecall_step perf i s =
     (case s of (recall, precision) \<Rightarrow>
        if length (Tp perf) \<le> i then Inl Panic
        else if 0 < Tp perf ! i then
          (if length (Fn perf) \<le> i \<or> length (Fp perf) \<le> i then Inl Panic
           else Inr (recall[i := fdiv (float64_of_int (Tp perf ! i))
                                      (float64_of_int (int64_add (Tp perf ! i) (Fn perf ! i)))],
                     precision[i := fdiv (float64_of_int (Tp perf ! i))
                                         (float64_of_int (int64_add (Tp perf ! i) (Fp perf ! i)))]))
        else if 0 < i then Inr (recall, precision[i := precision ! (i - 1)])
        else Inr (recall, precision))"

text \<open>The second loop of \<open>PrecisionRecall\<close> rewrites every entry of \<open>precision\<close>.\<close>

definition normalize_precision :: "'a Performance \<Rightarrow> float64 list \<Rightarrow> float64 list" where
  "normalize_precision perf precision =
     (let c = fdiv (float64_of_int (P perf)) (float64_of_int (int64_add (P perf) (N perf)))
      in map (\<lambda>p. fdiv (fsub p c) (fsub (Finite 1) c)) precision)"

text \<open>\<open>PrecisionRecall(perf, normalize)\<close> returns \<open>(recall, precision)\<close>.\<close>

definition PrecisionRecall ::
  "'a Performance \<Rightarrow> bool \<Rightarrow> error + (float64 list \<times> float64 list)" where
  "PrecisionRecall perf normalize' =
     (case for_loop [0..<Len perf] (PrecisionRecall_step perf)
             (replicate (Len perf) (Finite 0), replicate (Len perf) (Finite 0)) of
        Inl e \<Rightarrow> Inl e
      | Inr (recall, precision) \<Rightarrow>
          if normalize' then Inr (recall, normalize_precision perf precision)
          else Inr (recall, precision))"

section \<open>Area under a curve: \<open>AUC\<close>\<close>

definition AUC_step :: "float64 list \<Rightarrow> float64 list \<Rightarrow> nat \<Rightarrow> float64 \<Rightarrow> error + float64" where
  "AUC_step x y i result =
     (if length x \<le> i \<or> length y \<le> i \<or> i < 1 then Inl Panic
      else
        let dx = fabs (fsub (x ! i) (x ! (i - 1)));
            dy = fdiv (fadd (y ! i) (y ! (i - 1))) (Finite 2)
        in Inr (fadd result (fmul dx dy)))"

definition AUC :: "float64 list \<Rightarrow> float64 list \<Rightarrow> error + float64" where
  "AUC x y =
     (let n1 = length x; n2 = length y
      in if n1 \<noteq> n2 then Inl Panic
         else for_loop [1..<n1] (AUC_step x y) (Finite 0))"

section \<open>The operating point: \<open>Optimum\<close>\<close>

text \<open>
  \<open>Optimum(tr, x, y)\<close> scans the indices of \<open>tr\<close>; the state of the loop is the pair
  \<open>(k, v)\<close>, which starts at \<open>(0, math.Inf(-1))\<close>.
\<close>

definition Optimum_step ::
  "float64 list \<Rightarrow> float64 list \<Rightarrow> nat \<Rightarrow> nat \<times> float64 \<Rightarrow> error + (nat \<times> float64)" where
  "Optimum_step x y i s =
     (case s of (k, v) \<Rightarrow>
        if length x \<le> i \<or> length y \<le> i then Inl Panic
        else let r = fmul (x ! i) (y ! i)
             in if fgt r v then Inr (i, r) else Inr (k, v))"

definition Optimum :: "'a list \<Rightarrow> float64 list \<Rightarrow> float64 list \<Rightarrow> error + nat" where
  "Optimum tr x y =
     (case for_loop [0..<length tr] (Optimum_step x y) (0, NegInf) of
        Inl e \<Rightarrow> Inl e
      | Inr (k, v) \<Rightarrow> Inr k)"

section \<open>Reference functions\<close>

text \<open>
  The rows of aligned slices, and the slices of a list of rows.
\<close>

definition of_rows :: "(float64 \<times> int) list \<Rightarrow> float64 Predictions" where
  "of_rows rs = \<lparr>Values = map fst rs, Labels = map snd rs\<rparr>"

text \<open>
  What the inner loop of the insertion sort does to rows: \<open>sift x ra\<close> places the row
  \<open>x\<close> into the rows before it, given last row first, and \<open>isort\<close> is the whole sort.
\<close>

fun sift :: "float64 \<times> int \<Rightarrow> (float64 \<times> int) list \<Rightarrow> (float64 \<times> int) list" where
  "sift x [] = [x]"
| "sift x (y # ra) = (if flt (fst x) (fst y) then y # sift x ra else x # y # ra)"

definition isort :: "(float64 \<times> int) list \<Rightarrow> (float64 \<times> int) list" where
  "isort rs = rev (foldl (\<lambda>ra x. sift x ra) [] rs)"

text \<open>
  What the sweep is meant to record for a threshold \<open>v\<close>: the number of positive
  (respectively negative) rows whose score is at most \<open>v\<close>. \<open>sweep_inv\<close> is the
  invariant of the counting loop after the rows \<open>pre\<close>.
\<close>

definition pos_le :: "(float64 \<times> int) list \<Rightarrow> float64 \<Rightarrow> int" where
  "pos_le ps v = int (length (filter (\<lambda>p. fst p \<le> v \<and> snd p = 1) ps))"

definition neg_le :: "(float64 \<times> int) list \<Rightarrow> float64 \<Rightarrow> int" where
  "neg_le ps v = int (length (filter (\<lambda>p. fst p \<le> v \<and> snd p = 0) ps))"

definition sweep_inv ::
  "(float64 \<times> int) list \<Rightarrow> int \<Rightarrow> int \<Rightarrow> (float64 \<times> int) list \<Rightarrow> (float64 \<times> int) list \<Rightarrow> bool" where
  "sweep_inv pre n_pos n_neg n_pos_map n_neg_map =
     (n_pos = int (length (filter (\<lambda>p. snd p = 1) pre)) \<and>
      n_neg = int (length (filter (\<lambda>p. snd p = 0) pre)) \<and>
      distinct (map fst n_pos_map) \<and>
      set (map fst n_pos_map) = fst ` set pre \<and>
      (\<forall>v \<in> fst ` set pre. lookup n_pos_map v = pos_le pre v \<and> lookup n_neg_map v = neg_le pre v))"

text \<open>
  The sweep in terms of the rows alone: one threshold per distinct score, in ascending
  order, with the reference counts.
\<close>

definition sweep_of_rows :: "(float64 \<times> int) list \<Rightarrow> float64 Performance" where
  "sweep_of_rows qs =
     (let tr = sorted_list_of_set (fst ` set qs);
          n_pos = int (length (filter (\<lambda>p. snd p = 1) qs));
          n_neg = int (length (filter (\<lambda>p. snd p = 0) qs))
      in \<lparr>Tr = tr,
          Tp = map (\<lambda>t. n_pos - pos_le qs t) tr,
          Fp = map (\<lambda>t. n_neg - neg_le qs t) tr,
          Tn = map (neg_le qs) tr,
          Fn = map (pos_le qs) tr,
          P = n_pos, N = n_neg\<rparr>)"

section \<open>Properties of the sort\<close>

text \<open>
  On aligned slices the insertion sort acts on rows: \<open>sort_Predictions\<close> never panics
  and leaves the rows \<open>isort\<close>. It keeps the rows whatever the scores are; it leaves
  them in ascending order when no score is NaN; it leaves ascending rows as they are.
\<close>

lemma flt_imp_less: "flt a b \<Longrightarrow> a < b"
  by (cases a; cases b) (auto simp: flt_def less_float64_def)

lemma flt_iff_less: "a \<noteq> NaN \<Longrightarrow> b \<noteq> NaN \<Longrightarrow> flt a b \<longleftrightarrow> a < b"
  by (cases a; cases b) (auto simp: flt_def less_float64_def)

lemma of_rows_zip:
  "length labels = length values \<Longrightarrow> \<lparr>Values = values, Labels = labels\<rparr> = of_rows (zip values labels)"
  by (simp add: of_rows_def)

lemma Swap_adjacent:
  "Swap (of_rows (a @ y # x # rest)) (Suc (length a)) (length a) =
     (of_rows (a @ x # y # rest), None)"
  by (simp add: Swap_def of_rows_def Let_def nth_append list_update_append)

lemma Less_adjacent:
  "Less (of_rows (a @ y # x # rest)) (Suc (length a)) (length a) = flt (fst x) (fst y)"
  by (simp add: Less_def of_rows_def nth_append)

lemma insertionSort_inner_rows:
  "insertionSort_inner (of_rows (rev ra @ x # rest)) (length ra) =
     (of_rows (rev (sift x ra) @ rest), None)"
proof (induction ra arbitrary: rest)
  case Nil
  then show ?case by simp
next
  case (Cons y ra)
  have l: "Less (of_rows (rev ra @ y # x # rest)) (Suc (length ra)) (length ra) = flt (fst x) (fst y)"
    using Less_adjacent[of "rev ra" y x rest] by simp
  have s: "Swap (of_rows (rev ra @ y # x # rest)) (Suc (length ra)) (length ra) =
             (of_rows (rev ra @ x # y # rest), None)"
    using Swap_adjacent[of "rev ra" y x rest] by simp
  show ?case
    using Cons.IH[of "y # rest"] by (simp add: l s)
qed

lemma length_sift: "length (sift x ra) = Suc (length ra)"
  by (induction ra) auto

lemma insertionSort_outer_rows:
  "insertionSort_outer [length ra..<length ra + length rest] (of_rows (rev ra @ rest)) =
     (of_rows (rev (foldl (\<lambda>ra x. sift x ra) ra rest)), None)"
proof (induction rest arbitrary: ra)
  case Nil
  then show ?case by simp
next
  case (Cons x rest)
  have "[length ra..<length ra + length (x # rest)] =
          length ra # [length (sift x ra)..<length (sift x ra) + length rest]"
    by (subst upt_rec) (simp add: length_sift)
  then show ?case
    using Cons.IH[of "sift x ra"] by (simp add: insertionSort_inner_rows)
qed

lemma sort_Predictions_rows: "sort_Predictions (of_rows rs) = (of_rows (isort rs), None)"
proof (cases rs)
  case Nil
  then show ?thesis by (simp add: sort_Predictions_def of_rows_def isort_def)
next
  case (Cons r rest)
  have "[1..<length (Values (of_rows rs))] = [length [r]..<length [r] + length rest]"
    by (simp add: Cons of_rows_def)
  then show ?thesis
    using insertionSort_outer_rows[of "[r]" rest]
    by (simp add: sort_Predictions_def Cons isort_def)
qed

lemma mset_sift: "mset (sift x ra) = add_mset x (mset ra)"
  by (induction ra) auto

lemma mset_foldl_sift: "mset (foldl (\<lambda>ra x. sift x ra) ra rs) = mset ra + mset rs"
  by (induction rs arbitrary: ra) (auto simp: mset_sift)

lemma mset_isort: "mset (isort rs) = mset rs"
  by (simp add: isort_def mset_foldl_sift)

lemma set_isort: "set (isort rs) = set rs"
  by (metis mset_isort set_mset_mset)

lemma length_isort: "length (isort rs) = length rs"
  by (metis mset_isort size_mset)

lemma sift_descending:
  assumes "fst x \<noteq> NaN" "\<forall>r \<in> set ra. fst r \<noteq> NaN"
    and "sorted_wrt (\<lambda>a b. fst b \<le> fst a) ra"
  shows "sorted_wrt (\<lambda>a b. fst b \<le> fst a) (sift x ra)"
  using assms
proof (induction ra)
  case Nil
  then show ?case by simp
next
  case (Cons y ra)
  show ?case
  proof (cases "flt (fst x) (fst y)")
    case True
    then have "fst x \<le> fst y"
      using flt_imp_less by (simp add: less_imp_le)
    moreover have "\<forall>r \<in> set (sift x ra). fst r \<le> fst y"
      using Cons.prems(3) calculation by (metis insert_iff list.simps(15) mset_sift set_mset_add_mset_insert set_mset_mset sorted_wrt.simps(2))
    ultimately show ?thesis
      using True Cons by simp
  next
    case False
    then have "fst y \<le> fst x"
      using Cons.prems(1,2) by (simp add: flt_iff_less)
    then show ?thesis
      using False Cons.prems(3) by (auto intro: order_trans)
  qed
qed

lemma foldl_sift_descending:
  assumes "\<forall>r \<in> set ra \<union> set rs. fst r \<noteq> NaN" "sorted_wrt (\<lambda>a b. fst b \<le> fst a) ra"
  shows "sorted_wrt (\<lambda>a b. fst b \<le> fst a) (foldl (\<lambda>ra x. sift x ra) ra rs)"
  using assms
proof (induction rs arbitrary: ra)
  case Nil
  then show ?case by simp
next
  case (Cons x rs)
  have "sorted_wrt (\<lambda>a b. fst b \<le> fst a) (sift x ra)"
    using Cons.prems by (intro sift_descending) auto
  moreover have "\<forall>r \<in> set (sift x ra) \<union> set rs. fst r \<noteq> NaN"
    using Cons.prems(1) by (metis Un_iff insert_iff list.simps(15) mset_sift set_mset_add_mset_insert set_mset_mset)
  ultimately show ?case
    using Cons.IH by simp
qed

lemma sorted_isort:
  assumes "\<forall>r \<in> set rs. fst r \<noteq> NaN"
  shows "sorted (map fst (isort rs))"
proof -
  have "sorted_wrt (\<lambda>a b. fst b \<le> fst a) (foldl (\<lambda>ra x. sift x ra) [] rs)"
    using assms by (intro foldl_sift_descending) auto
  then show ?thesis
    by (simp add: isort_def sorted_wrt_rev sorted_wrt_map rev_map)
qed

lemma foldl_sift_ascending:
  "sorted_wrt (\<lambda>a b. \<not> flt (fst b) (fst a)) (rev ra @ rs) \<Longrightarrow>
     foldl (\<lambda>ra x. sift x ra) ra rs = rev rs @ ra"
proof (induction rs arbitrary: ra)
  case Nil
  then show ?case by simp
next
  case (Cons x rs)
  have "sift x ra = x # ra"
    using Cons.prems by (cases ra) (auto simp: sorted_wrt_append)
  moreover have "sorted_wrt (\<lambda>a b. \<not> flt (fst b) (fst a)) (rev (x # ra) @ rs)"
    using Cons.prems by simp
  ultimately show ?case
    using Cons.IH[of "x # ra"] by simp
qed

lemma isort_ascending: "sorted_wrt (\<lambda>a b. \<not> flt (fst b) (fst a)) rs \<Longrightarrow> isort rs = rs"
  using foldl_sift_ascending[of "[]" rs] by (simp add: isort_def)

section \<open>Properties of the sweep\<close>

lemma lookup_assign:
  "k \<noteq> NaN \<Longrightarrow> lookup (map_assign m k c) k' = (if k' = k then c else lookup m k')"
  by (simp add: lookup_def map_assign_def update_conv')

lemma keys_assign:
  "k \<noteq> NaN \<Longrightarrow> set (map fst (map_assign m k c)) = insert k (set (map fst m))"
  "k \<noteq> NaN \<Longrightarrow> distinct (map fst m) \<Longrightarrow> distinct (map fst (map_assign m k c))"
  by (auto simp: map_assign_def dom_update distinct_update update_keys image_iff)

lemma sweep_inv_empty: "sweep_inv [] 0 0 [] []"
  by (simp add: sweep_inv_def)

lemma pos_le_snoc:
  "pos_le (pre @ [(v, l)]) u = pos_le pre u + (if v \<le> u \<and> l = 1 then 1 else 0)"
  by (simp add: pos_le_def)

lemma neg_le_snoc:
  "neg_le (pre @ [(v, l)]) u = neg_le pre u + (if v \<le> u \<and> l = 0 then 1 else 0)"
  by (simp add: neg_le_def)

lemma pos_le_all:
  "\<forall>p \<in> set pre. fst p \<le> v \<Longrightarrow> pos_le pre v = int (length (filter (\<lambda>p. snd p = 1) pre))"
  unfolding pos_le_def by (auto intro!: arg_cong[where f=length] filter_cong)

lemma neg_le_all:
  "\<forall>p \<in> set pre. fst p \<le> v \<Longrightarrow> neg_le pre v = int (length (filter (\<lambda>p. snd p = 0) pre))"
  unfolding neg_le_def by (auto intro!: arg_cong[where f=length] filter_cong)

lemma sweep_inv_step:
  assumes inv: "sweep_inv pre n_pos n_neg pm nm"
    and le: "\<forall>p \<in> set pre. fst p \<le> v"
    and v: "v \<noteq> NaN"
  shows "sweep_inv (pre @ [(v, 1)]) (n_pos + 1) n_neg (map_assign pm v (n_pos + 1)) (map_assign nm v n_neg)"
    and "sweep_inv (pre @ [(v, 0)]) n_pos (n_neg + 1) (map_assign pm v n_pos) (map_assign nm v (n_neg + 1))"
  using inv le pos_le_all[OF le] neg_le_all[OF le] keys_assign[OF v]
  unfolding sweep_inv_def
  by (auto simp: lookup_assign[OF v] pos_le_snoc neg_le_snoc image_iff)

lemma count_labels_inv:
  assumes "sweep_inv pre n_pos n_neg pm nm"
    and "sorted (map fst (pre @ qs))"
    and "\<forall>q \<in> set qs. snd q = 0 \<or> snd q = 1"
    and "\<forall>q \<in> set qs. fst q \<noteq> NaN"
  shows "\<exists>n_pos' n_neg' pm' nm'.
           count_labels (map fst qs) (map snd qs) n_pos n_neg pm nm = Inr (n_pos', n_neg', pm', nm') \<and>
           sweep_inv (pre @ qs) n_pos' n_neg' pm' nm'"
  using assms
proof (induction qs arbitrary: pre n_pos n_neg pm nm)
  case Nil
  then show ?case by simp
next
  case (Cons q qs)
  obtain v l where q: "q = (v, l)" by (cases q)
  from Cons.prems(2) have le: "\<forall>p \<in> set pre. fst p \<le> v"
    by (auto simp: q sorted_append)
  from Cons.prems(2) have srt: "sorted (map fst ((pre @ [(v, l)]) @ qs))"
    by (simp add: q)
  from Cons.prems(3) have rest: "\<forall>q \<in> set qs. snd q = 0 \<or> snd q = 1" and l: "l = 0 \<or> l = 1"
    by (auto simp: q)
  from Cons.prems(4) have nan: "\<forall>q \<in> set qs. fst q \<noteq> NaN" and v: "v \<noteq> NaN"
    by (auto simp: q)
  from l show ?case
  proof
    assume l0: "l = 0"
    have "sweep_inv (pre @ [(v, l)]) n_pos (n_neg + 1) (map_assign pm v n_pos) (map_assign nm v (n_neg + 1))"
      using sweep_inv_step(2)[OF Cons.prems(1) le v] l0 by simp
    from Cons.IH[OF this srt rest nan] show ?thesis
      by (simp add: q l0)
  next
    assume l1: "l = 1"
    have "sweep_inv (pre @ [(v, l)]) (n_pos + 1) n_neg (map_assign pm v (n_pos + 1)) (map_assign nm v n_neg)"
      using sweep_inv_step(1)[OF Cons.prems(1) le v] l1 by simp
    from Cons.IH[OF this srt rest nan] show ?thesis
      by (simp add: q l1)
  qed
qed

lemma count_labels_error:
  assumes "length ls = length vs"
  shows "(\<exists>l \<in> set ls. l \<noteq> 0 \<and> l \<noteq> 1) \<longleftrightarrow>
         (\<exists>l. count_labels vs ls n_pos n_neg pm nm = Inl (InvalidLabel l) \<and> l \<in> set ls \<and> l \<noteq> 0 \<and> l \<noteq> 1)"
    and "count_labels vs ls n_pos n_neg pm nm \<noteq> Inl Panic"
    and "(\<forall>l \<in> set ls. l = 0 \<or> l = 1) \<longleftrightarrow> (\<exists>r. count_labels vs ls n_pos n_neg pm nm = Inr r)"
  using assms
  by (induction vs ls n_pos n_neg pm nm rule: count_labels.induct) auto

lemma EvalPerformance_aligned:
  assumes "length labels = length values"
  shows "EvalPerformance values labels =
          (of_rows (isort (zip values labels)), sweep_sorted (of_rows (isort (zip values labels))))"
  using assms by (simp add: EvalPerformance_def of_rows_zip sort_Predictions_rows)

lemma length_filter_mono:
  "(\<And>x. x \<in> set xs \<Longrightarrow> Q x \<Longrightarrow> R x) \<Longrightarrow> length (filter Q xs) \<le> length (filter R xs)"
  by (induction xs) auto

lemma pos_le_mono: "u \<le> v \<Longrightarrow> pos_le ps u \<le> pos_le ps v"
  unfolding pos_le_def by (auto intro!: length_filter_mono)

lemma neg_le_mono: "u \<le> v \<Longrightarrow> neg_le ps u \<le> neg_le ps v"
  unfolding neg_le_def by (auto intro!: length_filter_mono)

lemma length_filter_mset: "mset xs = mset ys \<Longrightarrow> length (filter Q xs) = length (filter Q ys)"
  by (metis mset_filter size_mset)

lemma pos_le_mset: "mset qs' = mset qs \<Longrightarrow> pos_le qs' v = pos_le qs v"
  unfolding pos_le_def by (simp add: length_filter_mset[of qs' qs])

lemma neg_le_mset: "mset qs' = mset qs \<Longrightarrow> neg_le qs' v = neg_le qs v"
  unfolding neg_le_def by (simp add: length_filter_mset[of qs' qs])

lemma sweep_inv_build:
  assumes "sweep_inv qs n_pos n_neg pm nm"
  shows "build_sweep n_pos n_neg pm nm (sort (map fst pm)) = sweep_of_rows qs"
proof -
  let ?tr = "sorted_list_of_set (fst ` set qs)"
  from assms have keys: "distinct (map fst pm)" "set (map fst pm) = fst ` set qs"
    and look: "\<And>v. v \<in> fst ` set qs \<Longrightarrow> lookup pm v = pos_le qs v \<and> lookup nm v = neg_le qs v"
    and cnt: "n_pos = int (length (filter (\<lambda>p. snd p = 1) qs))"
             "n_neg = int (length (filter (\<lambda>p. snd p = 0) qs))"
    by (auto simp: sweep_inv_def)
  have tr: "sort (map fst pm) = ?tr"
    using keys by (metis distinct_remdups_id sorted_list_of_set_sort_remdups)
  have "set ?tr = fst ` set qs"
    by simp
  then show ?thesis
    unfolding build_sweep_def sweep_of_rows_def tr cnt Let_def
    by (simp add: look)
qed

text \<open>The sweep of an ascending arrangement of valid rows without NaN.\<close>

lemma sweep_sorted_rows:
  assumes srt: "sorted (map fst qs)"
    and val: "\<forall>q \<in> set qs. snd q = 0 \<or> snd q = 1"
    and nan: "\<forall>q \<in> set qs. fst q \<noteq> NaN"
  shows "sweep_sorted (of_rows qs) = Inr (sweep_of_rows qs)"
proof -
  from srt have s: "sorted (map fst ([] @ qs))"
    by simp
  from count_labels_inv[OF sweep_inv_empty s val nan] obtain n_pos n_neg pm nm where
    run: "count_labels (map fst qs) (map snd qs) 0 0 [] [] = Inr (n_pos, n_neg, pm, nm)"
    and inv: "sweep_inv qs n_pos n_neg pm nm"
    by auto
  show ?thesis
    using run sweep_inv_build[OF inv] by (simp add: sweep_sorted_def of_rows_def)
qed

lemma sweep_of_rows_mset:
  assumes "mset qs' = mset qs"
  shows "sweep_of_rows qs' = sweep_of_rows qs"
  using mset_eq_setD[OF assms]
  by (simp add: sweep_of_rows_def length_filter_mset[OF assms]
      pos_le_mset[OF assms, abs_def] neg_le_mset[OF assms, abs_def])

lemma sweep_sorted_unique:
  assumes perm: "mset qs' = mset qs"
    and srt: "sorted (map fst qs)" "sorted (map fst qs')"
    and val: "\<forall>q \<in> set qs. snd q = 0 \<or> snd q = 1"
    and nan: "\<forall>q \<in> set qs. fst q \<noteq> NaN"
  shows "sweep_sorted (of_rows qs') = sweep_sorted (of_rows qs)"
proof -
  from perm have sets: "set qs' = set qs"
    by (rule mset_eq_setD)
  show ?thesis
    using sweep_sorted_rows[OF srt(1) val nan] sweep_sorted_rows[OF srt(2)] val nan
    by (simp add: sets sweep_of_rows_mset[OF perm])
qed

lemma EvalPerformance_counts:
  assumes len: "length labels = length values"
    and val: "\<forall>l \<in> set labels. l = 0 \<or> l = 1"
    and nan: "\<forall>v \<in> set values. v \<noteq> NaN"
  shows "snd (EvalPerformance values labels) = Inr (sweep_of_rows (zip values labels))"
proof -
  let ?rs = "zip values labels"
  let ?ps = "isort ?rs"
  have val': "\<forall>q \<in> set ?ps. snd q = 0 \<or> snd q = 1"
    using val by (auto simp: set_isort dest: set_zip_rightD)
  have nan': "\<forall>q \<in> set ?ps. fst q \<noteq> NaN"
    using nan by (auto simp: set_isort dest: set_zip_leftD)
  have srt: "sorted (map fst ?ps)"
    using nan by (intro sorted_isort) (auto dest: set_zip_leftD)
  show ?thesis
    using sweep_sorted_rows[OF srt val' nan']
    by (simp add: EvalPerformance_aligned[OF len] sweep_of_rows_mset[OF mset_isort])
qed

lemma sweep_sorted_valid:
  assumes "\<forall>q \<in> set qs. snd q = 0 \<or> snd q = 1"
  shows "\<exists>n_pos n_neg pm nm.
           sweep_sorted (of_rows qs) = Inr (build_sweep n_pos n_neg pm nm (sort (map fst pm)))"
proof -
  have "length (map snd qs) = length (map fst qs)"
    by simp
  from count_labels_error(3)[OF this, of 0 0 "[]" "[]"] assms
  obtain r where "count_labels (map fst qs) (map snd qs) 0 0 [] [] = Inr r"
    by auto
  then show ?thesis
    by (cases r) (auto simp: sweep_sorted_def of_rows_def)
qed

lemma sweep_of_rows_monotone:
  assumes "i \<le> j" "j < Len (sweep_of_rows qs)"
  shows "Tp (sweep_of_rows qs) ! j \<le> Tp (sweep_of_rows qs) ! i \<and>
         Fp (sweep_of_rows qs) ! j \<le> Fp (sweep_of_rows qs) ! i \<and>
         Tn (sweep_of_rows qs) ! i \<le> Tn (sweep_of_rows qs) ! j \<and>
         Fn (sweep_of_rows qs) ! i \<le> Fn (sweep_of_rows qs) ! j"
proof -
  let ?tr = "sorted_list_of_set (fst ` set qs)"
  from assms have i: "i < length ?tr" and j: "j < length ?tr"
    by (simp_all add: Len_def sweep_of_rows_def Let_def)
  have "sorted ?tr"
    by simp
  then have "?tr ! i \<le> ?tr ! j"
    using assms(1) j by (rule sorted_nth_mono)
  then have "pos_le qs (?tr ! i) \<le> pos_le qs (?tr ! j)" "neg_le qs (?tr ! i) \<le> neg_le qs (?tr ! j)"
    by (simp_all add: pos_le_mono neg_le_mono)
  then show ?thesis
    using i j by (simp add: sweep_of_rows_def Let_def)
qed

text \<open>
  \<open>sort.Sort\<close> is not stable and on long slices it is not an insertion sort. On a valid
  dataset without NaN this makes no difference to the result: the rest of
  \<open>EvalPerformance\<close>, run on any ascending arrangement of the rows, returns what the
  model returns.
\<close>

lemma EvalPerformance_any_sort:
  assumes "length labels = length values"
    and "\<forall>l \<in> set labels. l = 0 \<or> l = 1"
    and "\<forall>v \<in> set values. v \<noteq> NaN"
    and "mset qs = mset (zip values labels)" "sorted (map fst qs)"
  shows "sweep_sorted (of_rows qs) = snd (EvalPerformance values labels)"
proof -
  from assms(4) have sets: "set qs = set (zip values labels)"
    by (rule mset_eq_setD)
  have "\<forall>q \<in> set qs. snd q = 0 \<or> snd q = 1" "\<forall>q \<in> set qs. fst q \<noteq> NaN"
    using assms(2,3) unfolding sets by (auto dest: set_zip_rightD set_zip_leftD)
  from sweep_sorted_rows[OF assms(5) this] show ?thesis
    by (simp add: EvalPerformance_counts[OF assms(1-3)] sweep_of_rows_mset[OF assms(4)])
qed

text \<open>
  When the slices are not aligned: a label beyond the scores is never read, and a
  missing label is a label error or a panic, depending on which comes first; a panic
  in \<open>Swap\<close> leaves the scores exchanged.
\<close>

lemma EvalPerformance_short_labels_error:
  "EvalPerformance [Finite 1, Finite 2] [5] =
     (\<lparr>Values = [Finite 1, Finite 2], Labels = [5]\<rparr>, Inl (InvalidLabel 5))"
  by (simp add: EvalPerformance_def sort_Predictions_def Less_def Swap_def flt_def sweep_sorted_def)

lemma EvalPerformance_short_labels_panic:
  "EvalPerformance [Finite 2, Finite 1] [0] =
     (\<lparr>Values = [Finite 1, Finite 2], Labels = [0]\<rparr>, Inl Panic)"
  by (simp add: EvalPerformance_def sort_Predictions_def Less_def Swap_def flt_def sweep_sorted_def)

lemma EvalPerformance_long_labels:
  "snd (EvalPerformance [Finite 2, Finite 1] [0, 1, 7]) =
     Inr \<lparr>Tr = [Finite 1, Finite 2], Tp = [0, 0], Fp = [1, 0], Tn = [0, 1], Fn = [1, 1], P = 1, N = 1\<rparr>"
  by (simp add: EvalPerformance_def sort_Predictions_def Less_def Swap_def flt_def sweep_sorted_def
      build_sweep_def map_assign_def lookup_def)

section \<open>Claims about the sweep\<close>

text \<open>
  C1, counterexample. The claim says that on every valid dataset the counts are monotone
  along the thresholds. A score may be NaN: on the rows (2, 1), (NaN, 0), (1, 1) no
  comparison of the sort is true, the rows stay as they are, and the sweep has
  \<open>Tp = [2, 0, 1]\<close> and \<open>Tn = [0, 1, 0]\<close>.
\<close>

theorem EvalPerformance_NaN_not_monotone:
  "EvalPerformance [Finite 2, NaN, Finite 1] [1, 0, 1] =
     (\<lparr>Values = [Finite 2, NaN, Finite 1], Labels = [1, 0, 1]\<rparr>,
      Inr \<lparr>Tr = [NaN, Finite 1, Finite 2], Tp = [2, 0, 1], Fp = [1, 0, 1], Tn = [0, 1, 0],
           Fn = [0, 2, 1], P = 2, N = 1\<rparr>)"
  by (simp add: EvalPerformance_aligned isort_def flt_def of_rows_def sweep_sorted_def
      build_sweep_def map_assign_def lookup_def)

text \<open>
  C1, as amended. For every valid dataset (scores and labels of the same length, every
  label 0 or 1), \<open>EvalPerformance\<close> returns a sweep whose four count slices are as long as
  the thresholds and satisfy, at every index \<open>i\<close>, \<open>Tp[i] + Fn[i] = P\<close> and
  \<open>Fp[i] + Tn[i] = N\<close>; when no score is NaN, \<open>Tp\<close> and \<open>Fp\<close> never increase and \<open>Tn\<close>
  and \<open>Fn\<close> never decrease along the thresholds.
\<close>

theorem EvalPerformance_invariants:
  assumes "length labels = length values"
    and "\<forall>l \<in> set labels. l = 0 \<or> l = 1"
  shows "\<exists>perf. snd (EvalPerformance values labels) = Inr perf \<and>
           length (Tp perf) = Len perf \<and> length (Fp perf) = Len perf \<and>
           length (Tn perf) = Len perf \<and> length (Fn perf) = Len perf \<and>
           (\<forall>i < Len perf. Tp perf ! i + Fn perf ! i = P perf \<and>
                            Fp perf ! i + Tn perf ! i = N perf) \<and>
           ((\<forall>v \<in> set values. v \<noteq> NaN) \<longrightarrow>
            (\<forall>i j. i \<le> j \<and> j < Len perf \<longrightarrow>
                    Tp perf ! j \<le> Tp perf ! i \<and> Fp perf ! j \<le> Fp perf ! i \<and>
                    Tn perf ! i \<le> Tn perf ! j \<and> Fn perf ! i \<le> Fn perf ! j))"
proof -
  let ?ps = "isort (zip values labels)"
  have "\<forall>q \<in> set ?ps. snd q = 0 \<or> snd q = 1"
    using assms(2) by (auto simp: set_isort dest: set_zip_rightD)
  from sweep_sorted_valid[OF this] obtain n_pos n_neg pm nm where
    "sweep_sorted (of_rows ?ps) = Inr (build_sweep n_pos n_neg pm nm (sort (map fst pm)))"
    by blast
  then obtain perf where
    res: "snd (EvalPerformance values labels) = Inr perf"
    and perf: "perf = build_sweep n_pos n_neg pm nm (sort (map fst pm))"
    by (simp add: EvalPerformance_aligned[OF assms(1)])
  have len: "length (Tp perf) = Len perf" "length (Fp perf) = Len perf"
            "length (Tn perf) = Len perf" "length (Fn perf) = Len perf"
    by (simp_all add: perf build_sweep_def Len_def)
  have sums: "\<forall>i < Len perf. Tp perf ! i + Fn perf ! i = P perf \<and>
                               Fp perf ! i + Tn perf ! i = N perf"
    by (simp add: perf build_sweep_def Len_def)
  have mono: "\<forall>i j. i \<le> j \<and> j < Len perf \<longrightarrow>
                    Tp perf ! j \<le> Tp perf ! i \<and> Fp perf ! j \<le> Fp perf ! i \<and>
                    Tn perf ! i \<le> Tn perf ! j \<and> Fn perf ! i \<le> Fn perf ! j"
    if "\<forall>v \<in> set values. v \<noteq> NaN"
  proof -
    from EvalPerformance_counts[OF assms that] res
    have "perf = sweep_of_rows (zip values labels)"
      by simp
    then show ?thesis
      using sweep_of_rows_monotone by blast
  qed
  from res len sums mono show ?thesis
    by blast
qed

text \<open>C1, witness: the amended theorem at the rows (3, 1), (1, 0), (1, 1), none of them NaN.\<close>

theorem EvalPerformance_invariants_witness:
  "length [1, 0, 1 :: int] = length [Finite 3, Finite 1, Finite 1] \<and>
   set [1, 0, 1 :: int] \<subseteq> {0, 1} \<and>
   (\<exists>perf. snd (EvalPerformance [Finite 3, Finite 1, Finite 1] [1, 0, 1]) = Inr perf \<and>
           length (Tp perf) = Len perf \<and> length (Fp perf) = Len perf \<and>
           length (Tn perf) = Len perf \<and> length (Fn perf) = Len perf \<and>
           (\<forall>i < Len perf. Tp perf ! i + Fn perf ! i = P perf \<and>
                            Fp perf ! i + Tn perf ! i = N perf) \<and>
           (\<forall>i j. i \<le> j \<and> j < Len perf \<longrightarrow>
                    Tp perf ! j \<le> Tp perf ! i \<and> Fp perf ! j \<le> Fp perf ! i \<and>
                    Tn perf ! i \<le> Tn perf ! j \<and> Fn perf ! i \<le> Fn perf ! j))"
  using EvalPerformance_invariants [of "[1, 0, 1]" "[Finite 3, Finite 1, Finite 1]"] by simp

text \<open>
  C4, counterexample. The claim says that the thresholds of every valid dataset are
  strictly increasing. On the rows (NaN, 1), (1, 0), (NaN, 0) each NaN is a key of its
  own in the map, and the thresholds are \<open>[NaN, NaN, 1]\<close>, where \<open>NaN < NaN\<close> is false.
\<close>

theorem EvalPerformance_NaN_thresholds:
  "snd (EvalPerformance [NaN, Finite 1, NaN] [1, 0, 0]) =
     Inr \<lparr>Tr = [NaN, NaN, Finite 1], Tp = [1, 1, 0], Fp = [2, 2, 1], Tn = [0, 0, 1],
          Fn = [0, 0, 1], P = 1, N = 2\<rparr> \<and>
   \<not> flt NaN NaN"
  by (simp add: EvalPerformance_aligned isort_def flt_def of_rows_def sweep_sorted_def
      build_sweep_def map_assign_def lookup_def)

text \<open>
  C4, as amended. For every valid dataset in which no score is NaN, the thresholds \<open>Tr\<close>
  returned by \<open>EvalPerformance\<close> are strictly increasing and are exactly the distinct
  scores of the input, so their number is the number of distinct scores, which is at
  most the number of rows.
\<close>

theorem EvalPerformance_thresholds:
  assumes "length labels = length values"
    and "\<forall>l \<in> set labels. l = 0 \<or> l = 1"
    and "\<forall>v \<in> set values. v \<noteq> NaN"
  shows "\<exists>perf. snd (EvalPerformance values labels) = Inr perf \<and>
           sorted_wrt flt (Tr perf) \<and>
           set (Tr perf) = set values \<and>
           length (Tr perf) = card (set values) \<and>
           length (Tr perf) \<le> length values"
proof -
  let ?perf = "sweep_of_rows (zip values labels)"
  have res: "snd (EvalPerformance values labels) = Inr ?perf"
    by (rule EvalPerformance_counts[OF assms])
  have "fst ` set (zip values labels) = set values"
    using assms(1) by (metis list.set_map map_fst_zip)
  then have tr: "Tr ?perf = sorted_list_of_set (set values)"
    by (simp add: sweep_of_rows_def Let_def)
  have "sorted_wrt (<) (Tr ?perf)"
    by (simp add: tr)
  moreover have set: "set (Tr ?perf) = set values"
    by (simp add: tr)
  ultimately have "sorted_wrt flt (Tr ?perf)"
    using assms(3) by (auto simp: flt_iff_less elim!: sorted_wrt_mono_rel[rotated])
  moreover have "length (Tr ?perf) = card (set values)"
    by (simp add: tr)
  moreover have "card (set values) \<le> length values"
    by (rule card_length)
  ultimately show ?thesis
    using res set by auto
qed

text \<open>C4, witness: the amended theorem at the rows (3, 1), (1, 0), (1, 1), where the score 1 is repeated.\<close>

theorem EvalPerformance_thresholds_witness:
  "length [1, 0, 1 :: int] = length [Finite 3, Finite 1, Finite 1] \<and>
   set [1, 0, 1 :: int] \<subseteq> {0, 1} \<and>
   (\<exists>perf. snd (EvalPerformance [Finite 3, Finite 1, Finite 1] [1, 0, 1]) = Inr perf \<and>
           sorted_wrt flt (Tr perf) \<and>
           set (Tr perf) = set [Finite 3, Finite 1, Finite 1] \<and>
           length (Tr perf) = card (set [Finite 3, Finite 1, Finite 1]) \<and>
           length (Tr perf) \<le> length [Finite 3, Finite 1, Finite 1])"
  using EvalPerformance_thresholds [of "[1, 0, 1]" "[Finite 3, Finite 1, Finite 1]"] by simp

text \<open>
  C3, counterexample. The claim says that \<open>EvalPerformance\<close> fails on the empty input.
  On empty slices the counting loop does not run and an empty sweep is returned with no
  error.
\<close>

theorem EvalPerformance_empty_succeeds:
  "snd (EvalPerformance [] []) =
     Inr \<lparr>Tr = [], Tp = [], Fp = [], Tn = [], Fn = [], P = 0, N = 0\<rparr>"
  by (simp add: EvalPerformance_def sort_Predictions_def sweep_sorted_def build_sweep_def)

text \<open>
  C3, as amended. On scores and labels of the same length, \<open>EvalPerformance\<close> fails with
  a validation error if and only if some label is neither 0 nor 1, and the error then
  names such a label; on every other such input, the empty one included, it succeeds.
\<close>

theorem EvalPerformance_fails_iff:
  assumes "length labels = length values"
  shows "((\<exists>e. snd (EvalPerformance values labels) = Inl e) \<longleftrightarrow>
            (\<exists>l \<in> set labels. l \<noteq> 0 \<and> l \<noteq> 1)) \<and>
         (\<forall>e. snd (EvalPerformance values labels) = Inl e \<longrightarrow>
            (\<exists>l \<in> set labels. l \<noteq> 0 \<and> l \<noteq> 1 \<and> e = InvalidLabel l))"
proof -
  let ?ps = "isort (zip values labels)"
  let ?run = "count_labels (map fst ?ps) (map snd ?ps) 0 0 [] []"
  have snd_eq: "snd (EvalPerformance values labels) =
      (case ?run of Inl e \<Rightarrow> Inl e
       | Inr (n_pos, n_neg, n_pos_map, n_neg_map) \<Rightarrow>
           Inr (build_sweep n_pos n_neg n_pos_map n_neg_map (sort (map fst n_pos_map))))"
    by (simp add: EvalPerformance_aligned[OF assms] sweep_sorted_def of_rows_def)
  have labs: "set (map snd ?ps) = set labels"
    using assms by (metis map_snd_zip set_map set_isort)
  have len: "length (map snd ?ps) = length (map fst ?ps)"
    by simp
  note ce = count_labels_error[OF len, of 0 0 "[]" "[]"]
  have a: "(\<exists>e. snd (EvalPerformance values labels) = Inl e) \<longleftrightarrow>
            (\<exists>l \<in> set labels. l \<noteq> 0 \<and> l \<noteq> 1)"
  proof
    assume "\<exists>e. snd (EvalPerformance values labels) = Inl e"
    then have "\<not> (\<exists>r. ?run = Inr r)"
      by (auto simp: snd_eq split: sum.splits)
    with ce(3) have "\<not> (\<forall>l \<in> set (map snd ?ps). l = 0 \<or> l = 1)"
      by blast
    then show "\<exists>l \<in> set labels. l \<noteq> 0 \<and> l \<noteq> 1"
      unfolding labs by blast
  next
    assume "\<exists>l \<in> set labels. l \<noteq> 0 \<and> l \<noteq> 1"
    then have "\<exists>l \<in> set (map snd ?ps). l \<noteq> 0 \<and> l \<noteq> 1"
      unfolding labs .
    with ce(1) obtain l where "?run = Inl (InvalidLabel l)"
      by blast
    then show "\<exists>e. snd (EvalPerformance values labels) = Inl e"
      by (simp add: snd_eq)
  qed
  have b: "\<exists>l \<in> set labels. l \<noteq> 0 \<and> l \<noteq> 1 \<and> e = InvalidLabel l"
    if e: "snd (EvalPerformance values labels) = Inl e" for e
  proof -
    from e have run: "?run = Inl e"
      by (auto simp: snd_eq split: sum.splits)
    from e a have "\<exists>l \<in> set (map snd ?ps). l \<noteq> 0 \<and> l \<noteq> 1"
      unfolding labs by blast
    with ce(1) obtain l where "?run = Inl (InvalidLabel l)" "l \<in> set (map snd ?ps)" "l \<noteq> 0" "l \<noteq> 1"
      by blast
    with run show ?thesis
      unfolding labs by auto
  qed
  from a b show ?thesis
    by blast
qed

text \<open>C3, witness: the amended theorem at the rows (3, 1), (1, 2), with the invalid label 2.\<close>

theorem EvalPerformance_fails_iff_witness:
  "length [1, 2 :: int] = length [Finite 3, Finite 1] \<and>
   (\<exists>l \<in> set [1, 2 :: int]. l \<noteq> 0 \<and> l \<noteq> 1) \<and>
   (\<exists>e. snd (EvalPerformance [Finite 3, Finite 1] [1, 2]) = Inl e)"
  using EvalPerformance_fails_iff [of "[1, 2]" "[Finite 3, Finite 1]"] by simp

text \<open>
  C8, counterexample. The claim says that \<open>EvalPerformance\<close> leaves the caller's slices
  unchanged. \<open>sort.Sort\<close> works on the caller's backing arrays: after the call on the
  scores \<open>[2, 1]\<close> with labels \<open>[0, 1]\<close> the caller holds \<open>[1, 2]\<close> and \<open>[1, 0]\<close>.
\<close>

theorem EvalPerformance_reorders_caller:
  "fst (EvalPerformance [Finite 2, Finite 1] [0, 1]) =
     \<lparr>Values = [Finite 1, Finite 2], Labels = [1, 0]\<rparr>"
  by (simp add: EvalPerformance_def sort_Predictions_def Less_def Swap_def flt_def)

text \<open>
  C8, as amended. On scores and labels of the same length, the only effect of
  \<open>EvalPerformance\<close> on the caller's slices is to reorder them: after the call they hold
  the same (score, label) rows as before; when no score is NaN the rows are in ascending
  order of score; and the slices are unchanged when the scores were already strictly
  increasing.
\<close>

theorem EvalPerformance_sorts_in_place:
  assumes "length labels = length values"
  shows "mset (zip (Values (fst (EvalPerformance values labels)))
                   (Labels (fst (EvalPerformance values labels)))) = mset (zip values labels) \<and>
         length (Values (fst (EvalPerformance values labels))) = length values \<and>
         length (Labels (fst (EvalPerformance values labels))) = length labels \<and>
         ((\<forall>v \<in> set values. v \<noteq> NaN) \<longrightarrow>
            sorted_wrt (\<lambda>a b. \<not> flt b a) (Values (fst (EvalPerformance values labels)))) \<and>
         (sorted_wrt flt values \<longrightarrow>
            fst (EvalPerformance values labels) = \<lparr>Values = values, Labels = labels\<rparr>)"
proof -
  let ?ps = "isort (zip values labels)"
  have st: "fst (EvalPerformance values labels) = \<lparr>Values = map fst ?ps, Labels = map snd ?ps\<rparr>"
    by (simp add: EvalPerformance_aligned[OF assms] of_rows_def)
  have "zip (map fst ?ps) (map snd ?ps) = ?ps"
    by (simp add: zip_map_fst_snd)
  then have perm: "mset (zip (map fst ?ps) (map snd ?ps)) = mset (zip values labels)"
    by (simp add: mset_isort)
  have lens: "length (map fst ?ps) = length values" "length (map snd ?ps) = length labels"
    using assms by (simp_all add: length_isort)
  have asc: "sorted_wrt (\<lambda>a b. \<not> flt b a) (map fst ?ps)" if "\<forall>v \<in> set values. v \<noteq> NaN"
  proof -
    have "sorted (map fst ?ps)"
      using that by (intro sorted_isort) (auto dest: set_zip_leftD)
    then show ?thesis
      by (rule sorted_wrt_mono_rel[rotated]) (auto dest: flt_imp_less)
  qed
  have same: "\<lparr>Values = map fst ?ps, Labels = map snd ?ps\<rparr> = \<lparr>Values = values, Labels = labels\<rparr>"
    if "sorted_wrt flt values"
  proof -
    from that have "sorted_wrt (\<lambda>a b. \<not> flt b a) values"
      by (rule sorted_wrt_mono_rel[rotated]) (meson flt_imp_less less_asym)
    then have "sorted_wrt (\<lambda>a b. \<not> flt b a) (map fst (zip values labels))"
      using assms by simp
    then have "sorted_wrt (\<lambda>a b. \<not> flt (fst b) (fst a)) (zip values labels)"
      unfolding sorted_wrt_map .
    then have "?ps = zip values labels"
      by (rule isort_ascending)
    then show ?thesis
      using assms by simp
  qed
  from perm lens asc same show ?thesis
    unfolding st by simp
qed

text \<open>
  C8, witness: the amended theorem at the rows (2, 0), (1, 1), (3, 1), which are
  reordered, and at the rows (1, 0), (2, 1), which are already in order.
\<close>

theorem EvalPerformance_sorts_in_place_witness:
  "length [0, 1, 1 :: int] = length [Finite 2, Finite 1, Finite 3] \<and>
   mset (zip (Values (fst (EvalPerformance [Finite 2, Finite 1, Finite 3] [0, 1, 1])))
             (Labels (fst (EvalPerformance [Finite 2, Finite 1, Finite 3] [0, 1, 1])))) =
     mset (zip [Finite 2, Finite 1, Finite 3] [0, 1, 1]) \<and>
   sorted_wrt (\<lambda>a b. \<not> flt b a) (Values (fst (EvalPerformance [Finite 2, Finite 1, Finite 3] [0, 1, 1]))) \<and>
   fst (EvalPerformance [Finite 1, Finite 2] [0, 1]) = \<lparr>Values = [Finite 1, Finite 2], Labels = [0, 1]\<rparr>"
  using EvalPerformance_sorts_in_place [of "[0, 1, 1]" "[Finite 2, Finite 1, Finite 3]"]
        EvalPerformance_sorts_in_place [of "[0, 1]" "[Finite 1, Finite 2]"]
  by (simp add: flt_def)

section \<open>The older variant against the sweep\<close>

text \<open>On valid labels the unchecked counting loop is the checked one.\<close>

lemma count_labels_unchecked_valid:
  "\<forall>l \<in> set ls. l = 0 \<or> l = 1 \<Longrightarrow>
     count_labels_unchecked vs ls n_pos n_neg pm nm = count_labels vs ls n_pos n_neg pm nm"
  by (induction vs ls n_pos n_neg pm nm rule: count_labels.induct) (auto simp: Let_def)

text \<open>
  On a valid dataset whose scores are strictly increasing, \<open>ComputePerformance\<close> and
  \<open>EvalPerformance\<close> return the same thresholds, counts and totals.
\<close>

lemma ComputePerformance_agrees_distinct:
  assumes len: "length labels = length values"
    and val: "\<forall>l \<in> set labels. l = 0 \<or> l = 1"
    and nan: "\<forall>v \<in> set values. v \<noteq> NaN"
    and asc: "sorted_wrt flt values"
  shows "\<exists>perf. snd (EvalPerformance values labels) = Inr perf \<and>
           ComputePerformance \<lparr>Values = values, Labels = labels\<rparr> =
             Inr (Tr perf, Tp perf, Fp perf, Tn perf, Fn perf, P perf, N perf)"
proof -
  from asc have lt: "sorted_wrt (<) values"
    by (rule sorted_wrt_mono_rel[rotated]) (auto dest: flt_imp_less)
  then have srt: "sorted (map fst (zip values labels))"
    using len by (simp add: strict_sorted_imp_sorted)
  have rows: "\<forall>q \<in> set (zip values labels). snd q = 0 \<or> snd q = 1"
             "\<forall>q \<in> set (zip values labels). fst q \<noteq> NaN"
    using val nan by (auto dest: set_zip_rightD set_zip_leftD)
  from count_labels_error(3)[OF len, of 0 0 "[]" "[]"] val
  obtain n_pos n_neg pm nm where
    run: "count_labels values labels 0 0 [] [] = Inr (n_pos, n_neg, pm, nm)"
    by (metis prod_cases4)
  have "sweep_sorted (of_rows (zip values labels)) =
          Inr (build_sweep n_pos n_neg pm nm (sort (map fst pm)))"
    using run len by (simp add: sweep_sorted_def of_rows_def)
  with sweep_sorted_rows[OF srt rows]
  have sw: "build_sweep n_pos n_neg pm nm (sort (map fst pm)) = sweep_of_rows (zip values labels)"
    by simp
  have "fst ` set (zip values labels) = set values"
    using len by (metis list.set_map map_fst_zip)
  then have "Tr (sweep_of_rows (zip values labels)) = sorted_list_of_set (set values)"
    by (simp add: sweep_of_rows_def Let_def)
  also have "\<dots> = values"
    using lt by (simp add: sorted_list_of_set.idem_if_sorted_distinct strict_sorted_iff)
  finally have keys: "sort (map fst pm) = values"
    using sw by (metis Performance.select_convs(1) build_sweep_def)
  have sv: "sort values = values"
    using lt by (simp add: sort_key_id_if_sorted strict_sorted_imp_sorted)
  have "ComputePerformance \<lparr>Values = values, Labels = labels\<rparr> =
          Inr (values, map (\<lambda>t. n_pos - lookup pm t) values, map (\<lambda>t. n_neg - lookup nm t) values,
               map (lookup nm) values, map (lookup pm) values, n_pos, n_neg)"
    using run val by (simp add: ComputePerformance_def count_labels_unchecked_valid sv)
  moreover have "snd (EvalPerformance values labels) =
                   Inr (build_sweep n_pos n_neg pm nm (sort (map fst pm)))"
    using sw by (simp add: EvalPerformance_counts[OF len val nan])
  ultimately show ?thesis
    using keys by (simp add: build_sweep_def)
qed

text \<open>
  C6. The claim says that \<open>ComputePerformance\<close> and \<open>EvalPerformance\<close> return identical
  thresholds and counts on every valid dataset in ascending score order. On the rows
  (1, 0), (1, 1), which share a score, \<open>ComputePerformance\<close> returns one threshold per
  row, although its own comment announces a list of unique thresholds;
  \<open>EvalPerformance\<close> returns the single distinct score.
\<close>

theorem ComputePerformance_duplicate_scores:
  "ComputePerformance \<lparr>Values = [Finite 1, Finite 1], Labels = [0, 1]\<rparr> =
     Inr ([Finite 1, Finite 1], [0, 0], [0, 0], [1, 1], [1, 1], 1, 1) \<and>
   snd (EvalPerformance [Finite 1, Finite 1] [0, 1]) =
     Inr \<lparr>Tr = [Finite 1], Tp = [0], Fp = [0], Tn = [1], Fn = [1], P = 1, N = 1\<rparr>"
  by (simp add: ComputePerformance_def EvalPerformance_def sort_Predictions_def Less_def flt_def
      sweep_sorted_def build_sweep_def map_assign_def lookup_def)

section \<open>Properties of counted loops\<close>

lemma for_loop_append:
  "for_loop (is @ js) body s =
     (case for_loop is body s of Inl e \<Rightarrow> Inl e | Inr s' \<Rightarrow> for_loop js body s')"
  by (induction "is" arbitrary: s) (auto split: sum.splits)

lemma for_loop_snoc:
  "for_loop is body s = Inr s' \<Longrightarrow> for_loop (is @ [i]) body s = body i s'"
  by (simp add: for_loop_append split: sum.splits)

section \<open>Claims about \<open>AUC\<close>\<close>

lemma AUC_step_in_range:
  assumes "1 \<le> i" "i < length x" "length y = length x"
  shows "AUC_step x y i result =
           Inr (fadd result (fmul (fabs (fsub (x ! i) (x ! (i - 1))))
                                  (fdiv (fadd (y ! i) (y ! (i - 1))) (Finite 2))))"
  using assms by (simp add: AUC_step_def Let_def)

lemma AUC_loop_returns:
  assumes "length y = length x" "k \<le> length x"
  shows "\<exists>r. for_loop [1..<k] (AUC_step x y) (Finite 0) = Inr r"
  using assms(2)
proof (induction k)
  case 0
  then show ?case by simp
next
  case (Suc k)
  then obtain r where r: "for_loop [1..<k] (AUC_step x y) (Finite 0) = Inr r"
    by auto
  show ?case
  proof (cases "1 \<le> k")
    case True
    then have "[1..<Suc k] = [1..<k] @ [k]"
      by simp
    with for_loop_snoc[OF r, of k] AUC_step_in_range[OF True _ assms(1), of r] Suc.prems
    show ?thesis by simp
  next
    case False
    then show ?thesis by simp
  qed
qed

text \<open>
  C9. \<open>AUC\<close> panics exactly when its two arguments differ in length; when they have the
  same length it returns a value, every index it reads being in range.
\<close>

theorem AUC_panics_iff:
  "(AUC x y = Inl Panic \<longleftrightarrow> length x \<noteq> length y) \<and>
   ((\<exists>r. AUC x y = Inr r) \<longleftrightarrow> length x = length y)"
proof (cases "length x = length y")
  case True
  from AUC_loop_returns[of y x "length x"] True
  obtain r where "for_loop [1..<length x] (AUC_step x y) (Finite 0) = Inr r"
    by auto
  with True show ?thesis
    by (simp add: AUC_def)
next
  case False
  then show ?thesis
    by (simp add: AUC_def)
qed

text \<open>C9, witness: the theorem at a pair of unequal lengths and at a pair of equal lengths.\<close>

theorem AUC_panics_iff_witness:
  "AUC [Finite 0, Finite 1] [Finite 1] = Inl Panic \<and>
   (\<exists>r. AUC [Finite 0, Finite 1] [Finite 1, Finite 1] = Inr r)"
  using AUC_panics_iff [of "[Finite 0, Finite 1]" "[Finite 1]"]
        AUC_panics_iff [of "[Finite 0, Finite 1]" "[Finite 1, Finite 1]"]
  by simp

text \<open>The loop of \<open>AUC\<close> on finite coordinates is the trapezoid sum.\<close>

lemma AUC_loop_finite:
  assumes "length ys = length xs" "k \<le> length xs"
  shows "for_loop [1..<k] (AUC_step (map Finite xs) (map Finite ys)) (Finite 0) =
           Inr (Finite (\<Sum>i = 1..<k. \<bar>xs ! i - xs ! (i - 1)\<bar> * ((ys ! i + ys ! (i - 1)) / 2)))"
  using assms(2)
proof (induction k)
  case 0
  then show ?case by simp
next
  case (Suc k)
  then have IH: "for_loop [1..<k] (AUC_step (map Finite xs) (map Finite ys)) (Finite 0) =
           Inr (Finite (\<Sum>i = 1..<k. \<bar>xs ! i - xs ! (i - 1)\<bar> * ((ys ! i + ys ! (i - 1)) / 2)))"
    by simp
  show ?case
  proof (cases "1 \<le> k")
    case True
    then have upt: "[1..<Suc k] = [1..<k] @ [k]"
      by simp
    have step: "AUC_step (map Finite xs) (map Finite ys) k (Finite r) =
        Inr (Finite (r + \<bar>xs ! k - xs ! (k - 1)\<bar> * ((ys ! k + ys ! (k - 1)) / 2)))" for r
      using True Suc.prems assms(1) by (simp add: AUC_step_def Let_def fsub_def)
    show ?thesis
      using True by (simp only: upt for_loop_snoc[OF IH] step) simp
  next
    case False
    then show ?thesis by simp
  qed
qed

text \<open>
  C5, counterexample. The claim gives 0.5 for \<open>x = [0, 0.5, 1]\<close>, \<open>y = [0, 0, 1]\<close>. The
  first segment has height 0 and the second has width 0.5 and mean height 0.5, so the
  result is 0.25.
\<close>

theorem AUC_second_example_not_half:
  "AUC [Finite 0, Finite (1/2), Finite 1] [Finite 0, Finite 0, Finite 1] \<noteq> Inr (Finite (1/2))"
  by (simp add: AUC_def AUC_step_def fsub_def numeral_3_eq_3 numeral_2_eq_2)

text \<open>
  C5, as amended. On finite coordinates of equal length \<open>AUC\<close> returns the sum over
  \<open>i = 1..len-1\<close> of \<open>|x[i] - x[i-1]| * (y[i] + y[i-1]) / 2\<close>; it returns 1 on
  \<open>x = [0, 1]\<close>, \<open>y = [1, 1]\<close> and 0.25 on \<open>x = [0, 0.5, 1]\<close>, \<open>y = [0, 0, 1]\<close>.
\<close>

theorem AUC_values:
  "(\<forall>xs ys. length ys = length xs \<longrightarrow>
      AUC (map Finite xs) (map Finite ys) =
        Inr (Finite (\<Sum>i = 1..<length xs. \<bar>xs ! i - xs ! (i - 1)\<bar> * ((ys ! i + ys ! (i - 1)) / 2)))) \<and>
   AUC [Finite 0, Finite 1] [Finite 1, Finite 1] = Inr (Finite 1) \<and>
   AUC [Finite 0, Finite (1/2), Finite 1] [Finite 0, Finite 0, Finite 1] = Inr (Finite (1/4))"
proof -
  have gen: "AUC (map Finite xs) (map Finite ys) =
        Inr (Finite (\<Sum>i = 1..<length xs. \<bar>xs ! i - xs ! (i - 1)\<bar> * ((ys ! i + ys ! (i - 1)) / 2)))"
    if "length ys = length xs" for xs ys
    using that AUC_loop_finite[OF that, of "length xs"] by (simp add: AUC_def)
  have "AUC (map Finite [0, 1]) (map Finite [1, 1]) = Inr (Finite 1)"
    by (subst gen) (simp_all add: numeral_2_eq_2)
  moreover have "AUC (map Finite [0, 1/2, 1]) (map Finite [0, 0, 1]) = Inr (Finite (1/4))"
    by (subst gen) (simp_all add: numeral_3_eq_3 numeral_2_eq_2)
  ultimately show ?thesis
    using gen by simp
qed

text \<open>C5, witness: the trapezoid sum at \<open>x = [0, 1, 3]\<close>, \<open>y = [2, 2, 4]\<close> is 2 + 6.\<close>

theorem AUC_values_witness:
  "AUC (map Finite [0, 1, 3]) (map Finite [2, 2, 4]) = Inr (Finite 8)"
  using AUC_values [THEN conjunct1, rule_format, of "[2, 2, 4]" "[0, 1, 3]"]
  by (simp add: numeral_3_eq_3 numeral_2_eq_2)

section \<open>Claims about \<open>PrecisionRecall\<close>\<close>

text \<open>Where the sum fits in 64 bits, Go's sum is the sum.\<close>

lemma int64_add_exact:
  "- (2 ^ 63) \<le> a + b \<Longrightarrow> a + b < 2 ^ 63 \<Longrightarrow> int64_add a b = a + b"
  by (simp add: int64_add_def)

text \<open>
  The state of the first loop after \<open>k\<close> iterations, on a sweep whose count slices are as
  long as its thresholds.
\<close>

lemma PrecisionRecall_loop:
  assumes wf: "length (Tp perf) = n" "length (Fp perf) = n" "length (Fn perf) = n"
    and k: "k \<le> n"
  shows "\<exists>recall precision.
           for_loop [0..<k] (PrecisionRecall_step perf)
             (replicate n (Finite 0), replicate n (Finite 0)) = Inr (recall, precision) \<and>
           length recall = n \<and> length precision = n \<and>
           (\<forall>i<k. 0 < Tp perf ! i \<longrightarrow>
              recall ! i = fdiv (float64_of_int (Tp perf ! i))
                                (float64_of_int (int64_add (Tp perf ! i) (Fn perf ! i))) \<and>
              precision ! i = fdiv (float64_of_int (Tp perf ! i))
                                   (float64_of_int (int64_add (Tp perf ! i) (Fp perf ! i)))) \<and>
           (\<forall>i<k. Tp perf ! i \<le> 0 \<longrightarrow>
              recall ! i = Finite 0 \<and>
              precision ! i = (if i = 0 then Finite 0 else precision ! (i - 1))) \<and>
           (\<forall>i. k \<le> i \<and> i < n \<longrightarrow> recall ! i = Finite 0 \<and> precision ! i = Finite 0)"
  using k
proof (induction k)
  case 0
  then show ?case by simp
next
  case (Suc k)
  then obtain recall precision where
    run: "for_loop [0..<k] (PrecisionRecall_step perf)
            (replicate n (Finite 0), replicate n (Finite 0)) = Inr (recall, precision)"
    and len: "length recall = n" "length precision = n"
    and pos: "\<forall>i<k. 0 < Tp perf ! i \<longrightarrow>
              recall ! i = fdiv (float64_of_int (Tp perf ! i))
                                (float64_of_int (int64_add (Tp perf ! i) (Fn perf ! i))) \<and>
              precision ! i = fdiv (float64_of_int (Tp perf ! i))
                                   (float64_of_int (int64_add (Tp perf ! i) (Fp perf ! i)))"
    and zero: "\<forall>i<k. Tp perf ! i \<le> 0 \<longrightarrow>
              recall ! i = Finite 0 \<and>
              precision ! i = (if i = 0 then Finite 0 else precision ! (i - 1))"
    and rest: "\<forall>i. k \<le> i \<and> i < n \<longrightarrow> recall ! i = Finite 0 \<and> precision ! i = Finite 0"
    by auto
  from Suc.prems have kn: "k < n" by simp
  have step: "for_loop [0..<Suc k] (PrecisionRecall_step perf)
            (replicate n (Finite 0), replicate n (Finite 0)) =
            PrecisionRecall_step perf k (recall, precision)"
    using for_loop_snoc[OF run, of k] by simp
  show ?case
  proof (cases "0 < Tp perf ! k")
    case True
    let ?r = "recall[k := fdiv (float64_of_int (Tp perf ! k)) (float64_of_int (int64_add (Tp perf ! k) (Fn perf ! k)))]"
    let ?p = "precision[k := fdiv (float64_of_int (Tp perf ! k)) (float64_of_int (int64_add (Tp perf ! k) (Fp perf ! k)))]"
    have res: "PrecisionRecall_step perf k (recall, precision) = Inr (?r, ?p)"
      using True kn wf by (simp add: PrecisionRecall_step_def)
    have "\<forall>i<Suc k. Tp perf ! i \<le> 0 \<longrightarrow>
              ?r ! i = Finite 0 \<and> ?p ! i = (if i = 0 then Finite 0 else ?p ! (i - 1))"
      using zero True by (auto simp: less_Suc_eq nth_list_update)
    moreover have "\<forall>i<Suc k. 0 < Tp perf ! i \<longrightarrow>
              ?r ! i = fdiv (float64_of_int (Tp perf ! i)) (float64_of_int (int64_add (Tp perf ! i) (Fn perf ! i))) \<and>
              ?p ! i = fdiv (float64_of_int (Tp perf ! i)) (float64_of_int (int64_add (Tp perf ! i) (Fp perf ! i)))"
      using pos kn len by (auto simp: less_Suc_eq nth_list_update)
    moreover have "\<forall>i. Suc k \<le> i \<and> i < n \<longrightarrow> ?r ! i = Finite 0 \<and> ?p ! i = Finite 0"
      using rest by (auto simp: nth_list_update)
    ultimately show ?thesis
      unfolding step res using len by (intro exI[of _ ?r] exI[of _ ?p]) simp
  next
    case False
    let ?p = "if 0 < k then precision[k := precision ! (k - 1)] else precision"
    have res: "PrecisionRecall_step perf k (recall, precision) = Inr (recall, ?p)"
      using False kn wf by (simp add: PrecisionRecall_step_def)
    have "\<forall>i<Suc k. Tp perf ! i \<le> 0 \<longrightarrow>
              recall ! i = Finite 0 \<and> ?p ! i = (if i = 0 then Finite 0 else ?p ! (i - 1))"
      using zero rest kn len by (auto simp: less_Suc_eq nth_list_update)
    moreover have "\<forall>i<Suc k. 0 < Tp perf ! i \<longrightarrow>
              recall ! i = fdiv (float64_of_int (Tp perf ! i)) (float64_of_int (int64_add (Tp perf ! i) (Fn perf ! i))) \<and>
              ?p ! i = fdiv (float64_of_int (Tp perf ! i)) (float64_of_int (int64_add (Tp perf ! i) (Fp perf ! i)))"
      using pos False by (auto simp: less_Suc_eq nth_list_update)
    moreover have "\<forall>i. Suc k \<le> i \<and> i < n \<longrightarrow> recall ! i = Finite 0 \<and> ?p ! i = Finite 0"
      using rest by (auto simp: nth_list_update)
    moreover have "length ?p = n"
      using len by simp
    ultimately show ?thesis
      unfolding step res using len by (intro exI[of _ recall] exI[of _ ?p]) simp
  qed
qed

lemma PrecisionRecall_result:
  assumes wf: "length (Tp perf) = Len perf" "length (Fp perf) = Len perf"
              "length (Fn perf) = Len perf"
  shows "\<exists>recall precision.
           PrecisionRecall perf False = Inr (recall, precision) \<and>
           PrecisionRecall perf True = Inr (recall, normalize_precision perf precision) \<and>
           length recall = Len perf \<and> length precision = Len perf \<and>
           (\<forall>i<Len perf. 0 < Tp perf ! i \<longrightarrow>
              recall ! i = fdiv (float64_of_int (Tp perf ! i))
                                (float64_of_int (int64_add (Tp perf ! i) (Fn perf ! i))) \<and>
              precision ! i = fdiv (float64_of_int (Tp perf ! i))
                                   (float64_of_int (int64_add (Tp perf ! i) (Fp perf ! i)))) \<and>
           (\<forall>i<Len perf. Tp perf ! i \<le> 0 \<longrightarrow>
              recall ! i = Finite 0 \<and>
              precision ! i = (if i = 0 then Finite 0 else precision ! (i - 1)))"
proof -
  from PrecisionRecall_loop[OF wf, of "Len perf"] obtain recall precision where
    run: "for_loop [0..<Len perf] (PrecisionRecall_step perf)
            (replicate (Len perf) (Finite 0), replicate (Len perf) (Finite 0)) =
          Inr (recall, precision)"
    and props: "length recall = Len perf" "length precision = Len perf"
      "\<forall>i<Len perf. 0 < Tp perf ! i \<longrightarrow>
              recall ! i = fdiv (float64_of_int (Tp perf ! i))
                                (float64_of_int (int64_add (Tp perf ! i) (Fn perf ! i))) \<and>
              precision ! i = fdiv (float64_of_int (Tp perf ! i))
                                   (float64_of_int (int64_add (Tp perf ! i) (Fp perf ! i)))"
      "\<forall>i<Len perf. Tp perf ! i \<le> 0 \<longrightarrow>
              recall ! i = Finite 0 \<and>
              precision ! i = (if i = 0 then Finite 0 else precision ! (i - 1))"
    by auto
  have "PrecisionRecall perf False = Inr (recall, precision)"
       "PrecisionRecall perf True = Inr (recall, normalize_precision perf precision)"
    using run by (simp_all add: PrecisionRecall_def)
  with props show ?thesis
    by blast
qed




text \<open>
  C10. On every sweep, \<open>PrecisionRecall\<close> without normalization returns a recall that
  is exactly 0 at every index with \<open>Tp[i] = 0\<close>, and no entry of the recall is NaN,
  whatever \<open>P\<close> is.
\<close>

theorem PrecisionRecall_recall_zero:
  assumes "length (Tp perf) = Len perf" "length (Fp perf) = Len perf"
          "length (Fn perf) = Len perf"
  shows "\<exists>recall precision.
           PrecisionRecall perf False = Inr (recall, precision) \<and>
           length recall = Len perf \<and>
           (\<forall>i<Len perf. Tp perf ! i = 0 \<longrightarrow> recall ! i = Finite 0) \<and>
           (\<forall>i<Len perf. recall ! i \<noteq> NaN)"
proof -
  from PrecisionRecall_result[OF assms] obtain recall precision where
    res: "PrecisionRecall perf False = Inr (recall, precision)"
    and len: "length recall = Len perf"
    and pos: "\<forall>i<Len perf. 0 < Tp perf ! i \<longrightarrow>
              recall ! i = fdiv (float64_of_int (Tp perf ! i))
                                (float64_of_int (int64_add (Tp perf ! i) (Fn perf ! i))) \<and>
              precision ! i = fdiv (float64_of_int (Tp perf ! i))
                                   (float64_of_int (int64_add (Tp perf ! i) (Fp perf ! i)))"
    and zero: "\<forall>i<Len perf. Tp perf ! i \<le> 0 \<longrightarrow>
              recall ! i = Finite 0 \<and>
              precision ! i = (if i = 0 then Finite 0 else precision ! (i - 1))"
    by blast
  have "recall ! i \<noteq> NaN" if "i < Len perf" for i
  proof (cases "0 < Tp perf ! i")
    case True
    with pos that have "recall ! i = fdiv (float64_of_int (Tp perf ! i))
                                (float64_of_int (int64_add (Tp perf ! i) (Fn perf ! i)))"
      by blast
    with True show ?thesis
      by (simp add: float64_of_int_def)
  next
    case False
    with zero that show ?thesis by simp
  qed
  with res len zero show ?thesis
    by (intro exI[of _ recall] exI[of _ precision]) simp
qed

text \<open>
  C10, witness: the theorem at the sweep of the all-negative rows (1, 0), (2, 0), where
  \<open>P = 0\<close>.
\<close>

theorem PrecisionRecall_recall_zero_witness:
  "\<exists>recall precision.
     PrecisionRecall \<lparr>Tr = [1, 2 :: real], Tp = [0, 0], Fp = [1, 0], Tn = [1, 2],
                      Fn = [0, 0], P = 0, N = 2\<rparr> False = Inr (recall, precision) \<and>
     length recall = 2 \<and> recall ! 0 = Finite 0 \<and> recall ! 1 = Finite 0"
proof -
  let ?perf = "\<lparr>Tr = [1, 2 :: real], Tp = [0, 0], Fp = [1, 0], Tn = [1, 2],
                Fn = [0, 0], P = 0, N = 2\<rparr>"
  from PrecisionRecall_recall_zero [of ?perf] obtain recall precision where
    r: "PrecisionRecall ?perf False = Inr (recall, precision)"
      "length recall = Len ?perf"
      "\<forall>i<Len ?perf. Tp ?perf ! i = 0 \<longrightarrow> recall ! i = Finite 0"
    by (auto simp: Len_def)
  from r(3)[rule_format, of 0] r(3)[rule_format, of 1]
  have "recall ! 0 = Finite 0" "recall ! 1 = Finite 0"
    by (simp_all add: Len_def)
  with r(1,2) show ?thesis
    by (auto simp: Len_def)
qed

section \<open>Claims about \<open>Optimum\<close>\<close>

text \<open>Comparisons of \<open>float64\<close> values used by the scan.\<close>

lemma fgt_not_NaN: "fgt r v \<Longrightarrow> r \<noteq> NaN \<and> v \<noteq> NaN"
  by (cases r; cases v) auto

lemma fgt_above: "fgt r v \<Longrightarrow> \<not> fgt a v \<Longrightarrow> \<not> fgt a r"
  by (cases r; cases v; cases a) auto

lemma fgt_below: "fgt r v \<Longrightarrow> \<not> fgt a v \<Longrightarrow> a = NaN \<or> fgt r a"
  by (cases r; cases v; cases a) auto

lemma fgt_trans: "fgt r v \<Longrightarrow> fgt v a \<Longrightarrow> fgt r a"
  by (cases r; cases v; cases a) auto

lemma not_fgt_NegInf: "\<not> fgt a NegInf \<Longrightarrow> a = NaN \<or> a = NegInf"
  by (cases a) auto

lemma Optimum_loop:
  assumes "m \<le> length x" "m \<le> length y"
  shows "\<exists>k v. for_loop [0..<m] (Optimum_step x y) (0, NegInf) = Inr (k, v) \<and>
           v \<noteq> NaN \<and>
           (\<forall>j<m. \<not> fgt (fmul (x ! j) (y ! j)) v) \<and>
           (\<forall>j<k. fmul (x ! j) (y ! j) = NaN \<or> fgt v (fmul (x ! j) (y ! j))) \<and>
           (k < m \<and> v = fmul (x ! k) (y ! k) \<or> k = 0 \<and> v = NegInf)"
  using assms
proof (induction m)
  case 0
  then show ?case by simp
next
  case (Suc m)
  then obtain k v where
    run: "for_loop [0..<m] (Optimum_step x y) (0, NegInf) = Inr (k, v)"
    and v: "v \<noteq> NaN"
    and above: "\<forall>j<m. \<not> fgt (fmul (x ! j) (y ! j)) v"
    and below: "\<forall>j<k. fmul (x ! j) (y ! j) = NaN \<or> fgt v (fmul (x ! j) (y ! j))"
    and at: "k < m \<and> v = fmul (x ! k) (y ! k) \<or> k = 0 \<and> v = NegInf"
    by auto
  let ?r = "fmul (x ! m) (y ! m)"
  have step: "for_loop [0..<Suc m] (Optimum_step x y) (0, NegInf) =
                (if fgt ?r v then Inr (m, ?r) else Inr (k, v))"
    using for_loop_snoc[OF run, of m] Suc.prems by (simp add: Optimum_step_def Let_def)
  show ?case
  proof (cases "fgt ?r v")
    case True
    have "\<forall>j<Suc m. \<not> fgt (fmul (x ! j) (y ! j)) ?r"
      using above True fgt_above[OF True] fgt_not_NaN[OF True]
      by (auto simp: less_Suc_eq elim: fgt.elims)
    moreover have "\<forall>j<m. fmul (x ! j) (y ! j) = NaN \<or> fgt ?r (fmul (x ! j) (y ! j))"
      using above fgt_below[OF True] by blast
    moreover have "?r \<noteq> NaN"
      using fgt_not_NaN[OF True] by simp
    ultimately show ?thesis
      using True step by auto
  next
    case False
    have "\<forall>j<Suc m. \<not> fgt (fmul (x ! j) (y ! j)) v"
      using above False by (auto simp: less_Suc_eq)
    moreover have "k < Suc m \<and> v = fmul (x ! k) (y ! k) \<or> k = 0 \<and> v = NegInf"
      using at by auto
    ultimately show ?thesis
      using False step v below by auto
  qed
qed

lemma Optimum_result:
  assumes "length tr = length x" "length y = length x" "x \<noteq> []"
  shows "\<exists>k. Optimum tr x y = Inr k \<and> k < length x \<and>
           (\<forall>j<length x. \<not> fgt (fmul (x ! j) (y ! j)) (fmul (x ! k) (y ! k))) \<and>
           (\<forall>j<k. fmul (x ! j) (y ! j) = NaN \<or> fgt (fmul (x ! k) (y ! k)) (fmul (x ! j) (y ! j)))"
proof -
  let ?p = "\<lambda>j. fmul (x ! j) (y ! j)"
  from Optimum_loop[of "length x" x y] assms obtain k v where
    run: "for_loop [0..<length x] (Optimum_step x y) (0, NegInf) = Inr (k, v)"
    and above: "\<forall>j<length x. \<not> fgt (?p j) v"
    and below: "\<forall>j<k. ?p j = NaN \<or> fgt v (?p j)"
    and at: "k < length x \<and> v = ?p k \<or> k = 0 \<and> v = NegInf"
    by auto
  have res: "Optimum tr x y = Inr k"
    using run assms(1) by (simp add: Optimum_def)
  from at show ?thesis
  proof
    assume "k < length x \<and> v = ?p k"
    with res above below show ?thesis by auto
  next
    assume k0: "k = 0 \<and> v = NegInf"
    have "\<not> fgt (?p j) (?p 0)" if "j < length x" for j
    proof -
      from above that k0 have "?p j = NaN \<or> ?p j = NegInf"
        by (auto dest: not_fgt_NegInf)
      moreover from above assms(3) k0 have "?p 0 = NaN \<or> ?p 0 = NegInf"
        by (auto dest: not_fgt_NegInf)
      ultimately show ?thesis by auto
    qed
    with res k0 assms(3) show ?thesis by auto
  qed
qed

text \<open>
  C7, counterexample. The claim speaks of every pair of equal-length non-empty sequences
  \<open>x\<close> and \<open>y\<close>, but the scan runs over the indices of \<open>tr\<close>. With one threshold and
  the products 1 and 2, \<open>Optimum\<close> returns index 0 although the product at index 1 is
  greater.
\<close>

theorem Optimum_short_thresholds:
  "Optimum [1 :: real] [Finite 1, Finite 2] [Finite 1, Finite 1] = Inr 0 \<and>
   fgt (fmul ([Finite 1, Finite 2] ! 1) ([Finite 1, Finite 1] ! 1))
       (fmul ([Finite 1, Finite 2] ! 0) ([Finite 1, Finite 1] ! 0))"
  by (simp add: Optimum_def Optimum_step_def)

text \<open>
  C7, as amended. For every \<open>tr\<close>, \<open>x\<close> and \<open>y\<close> of the same non-zero length,
  \<open>Optimum\<close> returns the smallest index that maximizes the product \<open>x[i] * y[i]\<close>
  under the comparison the code uses, in which a NaN is neither greater nor smaller than
  anything: no product is greater than the one at the returned index, and every product
  at an earlier index is smaller or NaN. On \<open>x = [0.1, 0.9, 0.5]\<close>,
  \<open>y = [0.2, 0.8, 0.9]\<close> and any three thresholds it returns index 1.
\<close>

theorem Optimum_smallest_argmax:
  "(\<forall>(tr :: 'a list) x y.
      length tr = length x \<and> length y = length x \<and> x \<noteq> [] \<longrightarrow>
      (\<exists>k. Optimum tr x y = Inr k \<and> k < length x \<and>
           (\<forall>j<length x. \<not> fgt (fmul (x ! j) (y ! j)) (fmul (x ! k) (y ! k))) \<and>
           (\<forall>j<k. fmul (x ! j) (y ! j) = NaN \<or>
                   fgt (fmul (x ! k) (y ! k)) (fmul (x ! j) (y ! j))))) \<and>
   (\<forall>(t1 :: 'a) t2 t3.
      Optimum [t1, t2, t3] [Finite (1/10), Finite (9/10), Finite (1/2)]
                           [Finite (2/10), Finite (8/10), Finite (9/10)] = Inr 1)"
proof -
  have "Optimum [t1, t2, t3] [Finite (1/10), Finite (9/10), Finite (1/2)]
                        [Finite (2/10), Finite (8/10), Finite (9/10)] = Inr 1"
    for t1 t2 t3 :: 'a
    by (simp add: Optimum_def Optimum_step_def numeral_3_eq_3)
  then show ?thesis
    using Optimum_result by blast
qed

text \<open>
  C7, witness: the general part at the products 1, 2, 2 determines the result, index 1,
  the first of the two maximal products.
\<close>

theorem Optimum_smallest_argmax_witness:
  "Optimum [1, 2, 3 :: real] [Finite 1, Finite 2, Finite 2] [Finite 1, Finite 1, Finite 1] = Inr 1"
proof -
  let ?x = "[Finite 1, Finite 2, Finite 2]" and ?y = "[Finite 1, Finite 1, Finite 1]"
  from Optimum_smallest_argmax [THEN conjunct1, rule_format, of "[1, 2, 3 :: real]" ?x ?y]
  obtain k where k: "Optimum [1, 2, 3 :: real] ?x ?y = Inr k" "k < 3"
    "\<forall>j<3. \<not> fgt (fmul (?x ! j) (?y ! j)) (fmul (?x ! k) (?y ! k))"
    "\<forall>j<k. fmul (?x ! j) (?y ! j) = NaN \<or> fgt (fmul (?x ! k) (?y ! k)) (fmul (?x ! j) (?y ! j))"
    by auto
  from k(2) have "k = 0 \<or> k = 1 \<or> k = 2"
    by arith
  moreover from k(3)[rule_format, of 1] have "k \<noteq> 0"
    by (intro notI) simp
  moreover from k(4)[rule_format, of 1] have "k \<noteq> 2"
    by (intro notI) simp
  ultimately show ?thesis
    using k(1) by auto
qed

end
